theory Spec2Isabelle
  imports Main "HOL-Library.Log_Nat"
begin

section \<open>Text: Python strings, \<^verbatim>\<open>str.lower\<close>, \<^verbatim>\<open>str.strip\<close> and the word regex\<close>

text \<open>
  A Python \<^verbatim>\<open>str\<close> is modelled as a \<^typ>\<open>string\<close> whose characters are the code
  points 0 to 127. On that range \<^verbatim>\<open>str.lower\<close> maps \<^verbatim>\<open>A-Z\<close> to \<^verbatim>\<open>a-z\<close>
  and leaves every other character alone, the regex class \<^verbatim>\<open>\w\<close> is
  \<^verbatim>\<open>[a-zA-Z0-9_]\<close>, and the white space removed by \<^verbatim>\<open>str.strip\<close> is the
  characters 9 to 13 and 28 to 32. Characters from 128 on are kept by the functions
  below as neither letters, word characters nor white space; what Python does with
  them depends on the Unicode tables, which are not part of this development, so
  statements about tokenisation are made for ASCII text (\<open>ascii\<close>).
\<close>

definition code :: "char \<Rightarrow> nat" where
  "code c = of_char c"

definition ascii :: "string \<Rightarrow> bool" where
  "ascii s = list_all (\<lambda>c. code c < 128) s"

definition is_az :: "char \<Rightarrow> bool" where
  "is_az c = (97 \<le> code c \<and> code c \<le> 122)"

definition is_AZ :: "char \<Rightarrow> bool" where
  "is_AZ c = (65 \<le> code c \<and> code c \<le> 90)"

definition is_digit :: "char \<Rightarrow> bool" where
  "is_digit c = (48 \<le> code c \<and> code c \<le> 57)"

definition is_word_char :: "char \<Rightarrow> bool" where
  "is_word_char c = (is_az c \<or> is_AZ c \<or> is_digit c \<or> code c = 95)"

definition is_space :: "char \<Rightarrow> bool" where
  "is_space c = ((9 \<le> code c \<and> code c \<le> 13) \<or> (28 \<le> code c \<and> code c \<le> 32))"

definition lower_char :: "char \<Rightarrow> char" where
  "lower_char c = (if is_AZ c then char_of (code c + 32) else c)"

definition lower :: "string \<Rightarrow> string" where
  "lower s = map lower_char s"

definition strip :: "string \<Rightarrow> string" where
  "strip s = rev (dropWhile is_space (rev (dropWhile is_space s)))"

subsection \<open>\<^verbatim>\<open>re.findall(r'\b[a-z]+\b', s)\<close>\<close>

text \<open>
  The regex engine scans the string from left to right. At each position it tries the
  pattern: \<^verbatim>\<open>\b\<close> holds where exactly one of the two neighbouring characters is a
  word character (the outside of the string counts as a non-word character);
  \<^verbatim>\<open>[a-z]+\<close> is greedy, so it first takes the longest run of letters and then
  gives characters back one at a time until the closing \<^verbatim>\<open>\b\<close> holds
  (\<open>match_end\<close>). After a match the scan goes on behind it, after a failure one
  character further. The argument \<open>prev\<close> is the character in front of the current
  position.
\<close>

definition word_boundary :: "char option \<Rightarrow> char option \<Rightarrow> bool" where
  "word_boundary prev nxt =
     ((case prev of None \<Rightarrow> False | Some c \<Rightarrow> is_word_char c) \<noteq>
      (case nxt of None \<Rightarrow> False | Some c \<Rightarrow> is_word_char c))"

definition char_at :: "string \<Rightarrow> nat \<Rightarrow> char option" where
  "char_at s i = (if i < length s then Some (s ! i) else None)"

fun match_end :: "string \<Rightarrow> nat \<Rightarrow> nat option" where
  "match_end s 0 = None"
| "match_end s (Suc k) =
     (if word_boundary (char_at s k) (char_at s (Suc k)) then Some (Suc k)
      else match_end s k)"

definition match_here :: "char option \<Rightarrow> string \<Rightarrow> nat option" where
  "match_here prev s =
     (if word_boundary prev (char_at s 0)
      then match_end s (length (takeWhile is_az s))
      else None)"

lemma match_end_bounds: "match_end s n = Some k \<Longrightarrow> 0 < k \<and> k \<le> n"
  by (induction n) (auto split: if_splits)

lemma match_here_bounds:
  "match_here prev s = Some k \<Longrightarrow> 0 < k \<and> k \<le> length (takeWhile is_az s)"
  by (auto simp: match_here_def split: if_splits dest: match_end_bounds)

function findall_from :: "char option \<Rightarrow> string \<Rightarrow> string list" where
  "findall_from prev [] = []"
| "findall_from prev (c # cs) =
     (case match_here prev (c # cs) of
        None \<Rightarrow> findall_from (Some c) cs
      | Some k \<Rightarrow> take k (c # cs) # findall_from (char_at (c # cs) (k - 1)) (drop k (c # cs)))"
  by pat_completeness auto
termination
proof (relation "measure (\<lambda>(prev, s). length s)")
  show "wf (measure (\<lambda>(prev, s). length s))"
    by simp
next
  fix prev :: "char option" and c :: char and cs :: string
  show "((Some c, cs), (prev, c # cs)) \<in> measure (\<lambda>(prev, s). length s)"
    by simp
next
  fix prev :: "char option" and c :: char and cs :: string and k :: nat
  assume "match_here prev (c # cs) = Some k"
  then have "0 < k"
    by (auto dest: match_here_bounds)
  then show "((char_at (c # cs) (k - 1), drop k (c # cs)), (prev, c # cs))
      \<in> measure (\<lambda>(prev, s). length s)"
    by simp
qed

definition findall_words :: "string \<Rightarrow> string list" where
  "findall_words s = findall_from None s"

subsection \<open>Maximal runs of characters of one class\<close>

text \<open>
  \<open>runs P s\<close> lists the maximal runs of characters with property \<open>P\<close> in \<open>s\<close>, from
  left to right. It is the vocabulary of the statements about the tokeniser, not part
  of the program.
\<close>

function runs :: "(char \<Rightarrow> bool) \<Rightarrow> string \<Rightarrow> string list" where
  "runs P [] = []"
| "runs P (c # cs) =
     (if P c then (c # takeWhile P cs) # runs P (dropWhile P cs) else runs P cs)"
  by pat_completeness auto
termination
  by (relation "measure (\<lambda>(P, s). length s)")
     (auto simp: length_dropWhile_le less_Suc_eq_le)

section \<open>Theme extraction (\<^verbatim>\<open>chat/utils.py\<close>)\<close>

definition STOP_WORDS :: "string list" where
  "STOP_WORDS =
    [''the'', ''a'', ''an'', ''and'', ''or'', ''but'', ''in'', ''on'', ''at'', ''to'', ''for'',
     ''of'', ''with'', ''by'',
     ''is'', ''was'', ''are'', ''were'', ''be'', ''been'', ''being'', ''have'', ''has'', ''had'',
     ''do'', ''does'', ''did'',
     ''this'', ''that'', ''these'', ''those'', ''i'', ''you'', ''he'', ''she'', ''it'', ''we'',
     ''they'',
     ''not'', ''no'', ''yes'', ''very'', ''too'', ''so'', ''just'', ''only'', ''also'', ''more'',
     ''most'',
     ''what'', ''which'', ''who'', ''when'', ''where'', ''why'', ''how'', ''can'', ''could'',
     ''should'', ''would'',
     ''from'', ''about'', ''into'', ''through'', ''during'', ''before'', ''after'', ''above'',
     ''below'', ''up'', ''down'',
     ''out'', ''off'', ''over'', ''under'', ''again'', ''further'', ''then'', ''once'', ''here'',
     ''there'', ''when'',
     ''where'', ''why'', ''how'', ''all'', ''each'', ''both'', ''few'', ''more'', ''most'',
     ''other'', ''some'', ''such'',
     ''no'', ''nor'', ''not'', ''only'', ''own'', ''same'', ''so'', ''than'', ''too'', ''very'',
     ''s'', ''t'', ''can'',
     ''will'', ''just'', ''don'', ''should'', ''now'', ''response'', ''answer'', ''helpful'',
     ''not'', ''wasn'', ''didn'']"

text \<open>
  \<^verbatim>\<open>collections.Counter\<close> is a dictionary, and a Python dictionary keeps its keys in
  the order of their first insertion: the table is an association list, a new word
  goes to the end, a known word is counted where it stands.
\<close>

type_synonym counter = "(string \<times> nat) list"

fun counter_incr :: "counter \<Rightarrow> string \<Rightarrow> counter" where
  "counter_incr [] w = [(w, 1)]"
| "counter_incr ((k, v) # kvs) w =
     (if k = w then (k, v + 1) # kvs else (k, v) # counter_incr kvs w)"

definition counter_update :: "counter \<Rightarrow> string list \<Rightarrow> counter" where
  "counter_update cnt ws = foldl counter_incr cnt ws"

text \<open>
  \<^verbatim>\<open>Counter.most_common(n)\<close> is \<^verbatim>\<open>heapq.nlargest(n, items, key=count)\<close>, which
  the library documents as \<^verbatim>\<open>sorted(items, key=count, reverse=True)[:n]\<close>: a stable
  sort by descending count, cut after \<open>n\<close> entries (none when \<open>n \<le> 0\<close>).
\<close>

definition most_common :: "int \<Rightarrow> counter \<Rightarrow> counter" where
  "most_common n cnt = take (nat n) (sort_key (\<lambda>(w, c). - int c) cnt)"

definition note_words :: "string \<Rightarrow> string list" where
  "note_words note =
     filter (\<lambda>w. w \<notin> set STOP_WORDS \<and> length w > 3) (findall_words (lower note))"

fun count_notes :: "counter \<Rightarrow> string option list \<Rightarrow> counter" where
  "count_notes word_counter [] = word_counter"
| "count_notes word_counter (None # notes) = count_notes word_counter notes"
| "count_notes word_counter (Some note # notes) =
     (if note \<noteq> []
      then count_notes (counter_update word_counter (note_words note)) notes
      else count_notes word_counter notes)"

record theme =
  word :: string
  count :: nat

definition extract_feedback_themes :: "string option list \<Rightarrow> int \<Rightarrow> theme list" where
  "extract_feedback_themes feedback_notes top_n =
     map (\<lambda>(w, c). \<lparr>word = w, count = c\<rparr>)
       (most_common top_n (count_notes [] feedback_notes))"

section \<open>Numbers: Python \<^verbatim>\<open>float\<close> as correctly rounded rationals\<close>

text \<open>
  A finite binary64 value is a rational number, and every arithmetic operation of
  Python on floats returns the exact result rounded to the nearest binary64 value,
  ties to the even significand. \<open>fl\<close> is that rounding: \<open>binade x\<close> is the exponent
  \<open>e\<close> with \<open>2\<^sup>e \<le> \<bar>x\<bar> < 2\<^sup>e\<^sup>+\<^sup>1\<close>, the spacing of the binary64 values there is
  \<open>2\<^sup>e\<^sup>-\<^sup>5\<^sup>2\<close>, and below \<open>2\<^sup>-\<^sup>1\<^sup>0\<^sup>2\<^sup>2\<close> (the subnormal range) it stays
  \<open>2\<^sup>-\<^sup>1\<^sup>0\<^sup>7\<^sup>4\<close>. Overflow to infinity (results of magnitude \<open>2\<^sup>1\<^sup>0\<^sup>2\<^sup>4\<close> and more) is
  outside the model. An \<^verbatim>\<open>int\<close> and a \<^verbatim>\<open>float\<close> of the same value are the same
  number here.
\<close>

type_synonym float = rat

definition round_half_even :: "rat \<Rightarrow> int" where
  "round_half_even x =
     (let f = \<lfloor>x\<rfloor>; d = x - of_int f
      in if d < 1 / 2 then f else if 1 / 2 < d then f + 1 else if even f then f else f + 1)"

definition binade :: "rat \<Rightarrow> int" where
  "binade x = (if 1 \<le> \<bar>x\<bar> then bitlen \<lfloor>\<bar>x\<bar>\<rfloor> - 1 else - bitlen (\<lceil>1 / \<bar>x\<bar>\<rceil> - 1))"

definition ulp :: "rat \<Rightarrow> rat" where
  "ulp x = 2 powi (max (binade x) (- 1022) - 52)"

definition fl :: "rat \<Rightarrow> float" where
  "fl x = (if x = 0 then 0 else of_int (round_half_even (x / ulp x)) * ulp x)"

datatype py_error =
    ZeroDivisionError
  | IntegrityError
  | MultipleObjectsReturned
  | GeminiServiceError string
  | OtherError string

text \<open>\<^verbatim>\<open>a / b\<close> on two \<^verbatim>\<open>int\<close>s: true division, correctly rounded.\<close>

definition int_truediv :: "nat \<Rightarrow> nat \<Rightarrow> py_error + float" where
  "int_truediv a b = (if b = 0 then Inl ZeroDivisionError else Inr (fl (of_nat a / of_nat b)))"

definition float_mul :: "float \<Rightarrow> float \<Rightarrow> float" where
  "float_mul x y = fl (x * y)"

definition float_add :: "float \<Rightarrow> float \<Rightarrow> float" where
  "float_add x y = fl (x + y)"

definition float_div :: "float \<Rightarrow> nat \<Rightarrow> py_error + float" where
  "float_div x n = (if n = 0 then Inl ZeroDivisionError else Inr (fl (x / of_nat n)))"

text \<open>
  \<^verbatim>\<open>round(x, 2)\<close> on a float prints \<open>x\<close> with two decimals, correctly rounded
  (half to even on the exact value of \<open>x\<close>), and reads the decimal back as the nearest
  binary64 value.
\<close>

definition round2 :: "float \<Rightarrow> float" where
  "round2 x = fl (of_int (round_half_even (x * 100)) / 100)"

text \<open>The literals \<^verbatim>\<open>0.7\<close> and \<^verbatim>\<open>0.3\<close>.\<close>

definition lit_0_7 :: float where
  "lit_0_7 = fl (7 / 10)"

definition lit_0_3 :: float where
  "lit_0_3 = fl (3 / 10)"

section \<open>The store: conversations, messages, feedback\<close>

text \<open>
  Each table is the list of its rows in the order of its default query: conversations
  and feedback newest first, messages in insertion order. The time stamps that only
  fix this order are not fields of the rows.
\<close>

text \<open>
  Modelled from the spec: the rows of \<open>Conversation\<close> and \<open>Message\<close>
  (\<^verbatim>\<open>chat/models.py\<close> and the first migration are not among the sources). A
  conversation has an optional title; a message has its conversation, a role (\<open>user\<close>
  or \<open>ai\<close>), a text and a sequence number.
\<close>

datatype role = ROLE_USER | ROLE_AI

record conversation =
  conv_id :: nat
  conv_title :: "string option"

record message =
  msg_id :: nat
  msg_conversation :: nat
  msg_role :: role
  msg_text :: string
  msg_sequence :: nat

text \<open>
  The \<open>Feedback\<close> row of migration \<^verbatim>\<open>0002_feedback\<close>; \<open>fb_message\<close> is its
  one-to-one key to the message. The database would refuse a second feedback row for
  a message; the type of \<open>feedbacks\<close> does not, so that uniqueness is something to
  prove of the views.
\<close>

record feedback =
  fb_id :: nat
  fb_message :: nat
  fb_rating :: bool
  fb_note :: "string option"

record store =
  conversations :: "conversation list"
  messages :: "message list"
  feedbacks :: "feedback list"

text \<open>A new primary key is one more than the greatest key of the table.\<close>

definition new_id :: "nat list \<Rightarrow> nat" where
  "new_id ids = Suc (foldr max ids 0)"

definition conversation_messages :: "store \<Rightarrow> nat \<Rightarrow> message list" where
  "conversation_messages s cid = filter (\<lambda>m. msg_conversation m = cid) (messages s)"

definition touch_conversation :: "nat \<Rightarrow> conversation list \<Rightarrow> conversation list" where
  "touch_conversation cid cs =
     filter (\<lambda>c. conv_id c = cid) cs @ filter (\<lambda>c. conv_id c \<noteq> cid) cs"

text \<open>
  Modelled from the spec: \<^verbatim>\<open>Message.objects.create\<close> (\<^verbatim>\<open>chat/models.py\<close> is not
  among the sources). The sequence number is one more than the number of messages the
  conversation has; the pair of conversation and sequence number is unique, so a pair
  that is taken makes the insert fail (\<^verbatim>\<open>test_message_unique_together\<close>); the
  conversation is touched and so becomes the newest
  (\<^verbatim>\<open>test_message_sequence_increments_and_updates_conversation\<close>).
\<close>

definition Message_create :: "store \<Rightarrow> nat \<Rightarrow> role \<Rightarrow> string \<Rightarrow> py_error + (message \<times> store)" where
  "Message_create s cid r txt =
     (let sq = 1 + length (conversation_messages s cid);
          m = \<lparr>msg_id = new_id (map msg_id (messages s)), msg_conversation = cid,
               msg_role = r, msg_text = txt, msg_sequence = sq\<rparr>
      in if sq \<in> set (map msg_sequence (conversation_messages s cid))
         then Inl IntegrityError
         else Inr (m, s\<lparr>messages := messages s @ [m],
                        conversations := touch_conversation cid (conversations s)\<rparr>))"

section \<open>Quality score (\<^verbatim>\<open>chat/utils.py\<close>)\<close>

definition ai_messages :: "store \<Rightarrow> conversation \<Rightarrow> message list" where
  "ai_messages s conv =
     filter (\<lambda>m. msg_role m = ROLE_AI) (conversation_messages s (conv_id conv))"

definition total_ai :: "store \<Rightarrow> conversation \<Rightarrow> nat" where
  "total_ai s conv = length (ai_messages s conv)"

definition feedback_on :: "store \<Rightarrow> message list \<Rightarrow> feedback list" where
  "feedback_on s ms = filter (\<lambda>f. fb_message f \<in> set (map msg_id ms)) (feedbacks s)"

definition feedback_count :: "store \<Rightarrow> conversation \<Rightarrow> nat" where
  "feedback_count s conv = length (feedback_on s (ai_messages s conv))"

definition positive_count :: "store \<Rightarrow> conversation \<Rightarrow> nat" where
  "positive_count s conv = length (filter fb_rating (feedback_on s (ai_messages s conv)))"

definition calculate_quality_score :: "store \<Rightarrow> conversation \<Rightarrow> py_error + float option" where
  "calculate_quality_score s conv =
     (if total_ai s conv = 0 then Inr None
      else if feedback_count s conv = 0 then Inr None
      else case int_truediv (positive_count s conv) (feedback_count s conv) of
          Inl e \<Rightarrow> Inl e
        | Inr positive_ratio \<Rightarrow>
            (case int_truediv (feedback_count s conv) (total_ai s conv) of
               Inl e \<Rightarrow> Inl e
             | Inr feedback_rate \<Rightarrow>
                 Inr (Some (round2 (float_mul
                   (float_add (float_mul positive_ratio lit_0_7) (float_mul feedback_rate lit_0_3))
                   100)))))"

section \<open>The reply generator (\<^verbatim>\<open>chat/services/gemini.py\<close>)\<close>

text \<open>
  A prompt is either the text a user posted or the insights template. The template is
  a fixed f-string, so the prompt built from it is given by the values it
  interpolates: the usage counts, the feedback count, the two rates (not yet rounded),
  the positive and negative counts, the average score (absent for \<^verbatim>\<open>N/A\<close>), the
  distribution and the first five theme words (absent for \<^verbatim>\<open>None yet\<close>).
\<close>

record usage_stats =
  total_conversations :: nat
  total_messages :: nat
  total_user_messages :: nat
  total_ai_messages :: nat

record distribution =
  excellent :: nat
  good :: nat
  fair :: nat
  poor :: nat

datatype prompt =
    UserText string
  | SummaryPrompt usage_stats nat float float nat nat "float option" distribution
      "string list option"

type_synonym history = "(role \<times> string) list"

type_synonym generator = "history \<Rightarrow> prompt \<Rightarrow> py_error + string"

text \<open>
  The environment of \<^verbatim>\<open>generate_reply\<close>: the two environment variables, whether
  \<^verbatim>\<open>from google import genai\<close> succeeds (\<open>Some\<close> holds the exception text when it does
  not), and the remote call, which raises (\<open>Inl\<close>) or returns a response whose
  \<^verbatim>\<open>text\<close> attribute may be missing.
\<close>

record gemini_env =
  GEMINI_API_KEY :: "string option"
  GEMINI_MODEL :: "string option"
  genai_import_error :: "string option"
  generate_content :: "string \<Rightarrow> prompt \<Rightarrow> string + string option"

definition get_model_name :: "gemini_env \<Rightarrow> string" where
  "get_model_name env =
     (case GEMINI_MODEL env of None \<Rightarrow> ''gemini-2.5-flash'' | Some m \<Rightarrow> m)"

definition generate_reply :: "gemini_env \<Rightarrow> generator" where
  "generate_reply env hist p =
     (if GEMINI_API_KEY env = None \<or> GEMINI_API_KEY env = Some []
      then Inl (GeminiServiceError ''Gemini API key is missing; set GEMINI_API_KEY in .env'')
      else case genai_import_error env of
          Some e \<Rightarrow> Inl (GeminiServiceError (''Gemini client not available: '' @ e))
        | None \<Rightarrow>
            (case generate_content env (get_model_name env) p of
               Inl e \<Rightarrow> Inl (GeminiServiceError (''Gemini request failed: '' @ e))
             | Inr resp_text \<Rightarrow>
                 (let txt = strip (case resp_text of None \<Rightarrow> [] | Some t \<Rightarrow> t)
                  in if txt = []
                     then Inl (GeminiServiceError
                            (''Gemini request failed: '' @ ''Empty response from Gemini''))
                     else Inr txt)))"

section \<open>Request validation (\<^verbatim>\<open>chat/serializers.py\<close>)\<close>

text \<open>
  A request body is modelled after JSON decoding, field by field: a field is absent,
  null or a value. \<open>CharField\<close> trims white space before it checks \<open>allow_blank\<close>
  and \<open>max_length\<close>, and refuses text that holds the null character. A serializer returns its validated data, or \<open>None\<close> when
  \<^verbatim>\<open>is_valid(raise_exception=True)\<close> raises the validation error that the framework
  answers with status 400.
\<close>

datatype 'a field = Absent | Null | Value 'a

definition char_field :: "nat \<Rightarrow> string \<Rightarrow> string option" where
  "char_field max_length t =
     (let txt = strip t
      in if length txt > max_length \<or> char_of (0 :: nat) \<in> set txt then None else Some txt)"

definition CreateMessageSerializer :: "string field \<Rightarrow> string option" where
  "CreateMessageSerializer text_field =
     (case text_field of
        Value t \<Rightarrow> if strip t = [] then None else char_field 1000 t
      | _ \<Rightarrow> None)"

definition UpdateConversationSerializer :: "string field \<Rightarrow> string option option" where
  "UpdateConversationSerializer title_field =
     (case title_field of
        Value t \<Rightarrow>
          (case char_field 200 t of
             None \<Rightarrow> None
           | Some txt \<Rightarrow> Some (if strip txt \<noteq> [] then Some (strip txt) else None))
      | _ \<Rightarrow> Some None)"

record feedback_request =
  rating_field :: "bool field"
  note_field :: "string field"

definition CreateFeedbackSerializer :: "feedback_request \<Rightarrow> (bool \<times> string option) option" where
  "CreateFeedbackSerializer req =
     (case rating_field req of
        Value rating \<Rightarrow>
          (case note_field req of
             Value t \<Rightarrow>
               (case char_field 1000 t of None \<Rightarrow> None | Some txt \<Rightarrow> Some (rating, Some txt))
           | _ \<Rightarrow> Some (rating, None))
      | _ \<Rightarrow> None)"

section \<open>The views (\<^verbatim>\<open>chat/views.py\<close>)\<close>

record usage_feedback =
  total_feedback :: nat
  positive_feedback :: nat
  negative_feedback :: nat
  satisfaction_rate :: float
  feedback_rate :: float

record conversation_entry =
  entry_id :: nat
  entry_title :: "string option"
  quality_score :: "float option"
  entry_total_messages :: nat
  entry_feedback_count :: nat

record quality_stats =
  average :: "float option"
  spread :: distribution
  entries :: "conversation_entry list"

record insights =
  usage :: usage_stats
  feedback_stats :: usage_feedback
  themes :: "theme list"
  quality_scores :: quality_stats
  summary :: "string option"

datatype body =
    Detail string
  | ValidationErrors
  | ConversationData conversation "float option"
  | FeedbackData feedback
  | MessagePair message message
  | InsightsData insights

record response =
  status :: nat
  content :: body

subsection \<open>\<^verbatim>\<open>ConversationListCreateView.post\<close> and \<^verbatim>\<open>ConversationDetailView.patch\<close>\<close>

text \<open>
  \<open>ConversationSerializer\<close> adds the quality score of the conversation to its row.
\<close>

definition ConversationSerializer :: "store \<Rightarrow> conversation \<Rightarrow> py_error + body" where
  "ConversationSerializer s conv =
     (case calculate_quality_score s conv of
        Inl e \<Rightarrow> Inl e
      | Inr score \<Rightarrow> Inr (ConversationData conv score))"

definition ConversationListCreateView_post ::
    "store \<Rightarrow> string field \<Rightarrow> (py_error + response) \<times> store" where
  "ConversationListCreateView_post s title_field =
     (let conv = \<lparr>conv_id = new_id (map conv_id (conversations s)),
                  conv_title = (case title_field of
                                  Value t \<Rightarrow> if t \<noteq> [] then Some t else None
                                | _ \<Rightarrow> None)\<rparr>;
          s' = s\<lparr>conversations := conv # conversations s\<rparr>
      in case ConversationSerializer s' conv of
           Inl e \<Rightarrow> (Inl e, s')
         | Inr data \<Rightarrow> (Inr \<lparr>status = 201, content = data\<rparr>, s'))"

definition get_conversation :: "store \<Rightarrow> nat \<Rightarrow> conversation option" where
  "get_conversation s pk = find (\<lambda>c. conv_id c = pk) (conversations s)"

definition save_conversation :: "conversation \<Rightarrow> store \<Rightarrow> store" where
  "save_conversation conv s =
     s\<lparr>conversations :=
         touch_conversation (conv_id conv)
           (map (\<lambda>c. if conv_id c = conv_id conv then conv else c) (conversations s))\<rparr>"

definition ConversationDetailView_patch ::
    "store \<Rightarrow> nat \<Rightarrow> string field \<Rightarrow> (py_error + response) \<times> store" where
  "ConversationDetailView_patch s pk title_field =
     (case get_conversation s pk of
        None \<Rightarrow> (Inr \<lparr>status = 404, content = Detail ''Not found.''\<rparr>, s)
      | Some conv \<Rightarrow>
          (case UpdateConversationSerializer title_field of
             None \<Rightarrow> (Inr \<lparr>status = 400, content = ValidationErrors\<rparr>, s)
           | Some t \<Rightarrow>
               (let conv' = conv\<lparr>conv_title := t\<rparr>;
                    s' = save_conversation conv' s
                in case ConversationSerializer s' conv' of
                     Inl e \<Rightarrow> (Inl e, s')
                   | Inr data \<Rightarrow> (Inr \<lparr>status = 200, content = data\<rparr>, s'))))"

subsection \<open>\<^verbatim>\<open>MessageListCreateView.post\<close>\<close>

definition get_message :: "store \<Rightarrow> nat \<Rightarrow> message option" where
  "get_message s pk = find (\<lambda>m. msg_id m = pk) (messages s)"

definition last_messages :: "store \<Rightarrow> nat \<Rightarrow> history" where
  "last_messages s cid =
     rev (take 10 (rev (map (\<lambda>m. (msg_role m, msg_text m))
       (sort_key msg_sequence (conversation_messages s cid)))))"

definition auto_title :: "string \<Rightarrow> string" where
  "auto_title txt = strip (take 50 txt) @ (if length txt > 50 then ''...'' else [])"

definition save_title :: "nat \<Rightarrow> string \<Rightarrow> store \<Rightarrow> store" where
  "save_title pk t s =
     s\<lparr>conversations :=
         map (\<lambda>c. if conv_id c = pk then c\<lparr>conv_title := Some t\<rparr> else c) (conversations s)\<rparr>"

definition user_message_count :: "store \<Rightarrow> nat \<Rightarrow> nat" where
  "user_message_count s cid =
     length (filter (\<lambda>m. msg_role m = ROLE_USER) (conversation_messages s cid))"

definition MessageListCreateView_post ::
    "generator \<Rightarrow> store \<Rightarrow> nat \<Rightarrow> string field \<Rightarrow> (py_error + response) \<times> store" where
  "MessageListCreateView_post gen s pk text_field =
     (case get_conversation s pk of
        None \<Rightarrow> (Inr \<lparr>status = 404, content = Detail ''Not found.''\<rparr>, s)
      | Some conv \<Rightarrow>
     (case CreateMessageSerializer text_field of
        None \<Rightarrow> (Inr \<lparr>status = 400, content = ValidationErrors\<rparr>, s)
      | Some txt \<Rightarrow>
     (case Message_create s (conv_id conv) ROLE_USER txt of
        Inl e \<Rightarrow> (Inl e, s)
      | Inr (user_msg, s1) \<Rightarrow>
     (case gen (last_messages s1 (conv_id conv)) (UserText txt) of
        Inl (GeminiServiceError e) \<Rightarrow> (Inr \<lparr>status = 502, content = Detail e\<rparr>, s1)
      | Inl e \<Rightarrow> (Inl e, s1)
      | Inr reply \<Rightarrow>
     (case Message_create s1 (conv_id conv) ROLE_AI reply of
        Inl e \<Rightarrow> (Inl e, s1)
      | Inr (ai_msg, s2) \<Rightarrow>
          (Inr \<lparr>status = 201, content = MessagePair user_msg ai_msg\<rparr>,
           if (conv_title conv = None \<or> conv_title conv = Some [])
              \<and> user_message_count s2 (conv_id conv) = 1
           then save_title (conv_id conv) (auto_title txt) s2
           else s2))))))"

subsection \<open>\<^verbatim>\<open>MessageFeedbackView.post\<close>\<close>

definition or_empty :: "string option \<Rightarrow> string" where
  "or_empty v = (case v of None \<Rightarrow> [] | Some t \<Rightarrow> t)"

definition save_feedback :: "feedback \<Rightarrow> store \<Rightarrow> store" where
  "save_feedback f s =
     s\<lparr>feedbacks := map (\<lambda>g. if fb_id g = fb_id f then f else g) (feedbacks s)\<rparr>"

definition MessageFeedbackView_post ::
    "store \<Rightarrow> nat \<Rightarrow> feedback_request \<Rightarrow> (py_error + response) \<times> store" where
  "MessageFeedbackView_post s message_id req =
     (case get_message s message_id of
        None \<Rightarrow> (Inr \<lparr>status = 404, content = Detail ''Not found.''\<rparr>, s)
      | Some msg \<Rightarrow>
          if msg_role msg \<noteq> ROLE_AI
          then (Inr \<lparr>status = 400,
                     content = Detail ''Feedback can only be provided for AI messages.''\<rparr>, s)
          else
     (case CreateFeedbackSerializer req of
        None \<Rightarrow> (Inr \<lparr>status = 400, content = ValidationErrors\<rparr>, s)
      | Some (rating, note) \<Rightarrow>
     (case filter (\<lambda>f. fb_message f = msg_id msg) (feedbacks s) of
        [] \<Rightarrow>
          (let f = \<lparr>fb_id = new_id (map fb_id (feedbacks s)), fb_message = msg_id msg,
                    fb_rating = rating, fb_note = Some (or_empty note)\<rparr>
           in (Inr \<lparr>status = 201, content = FeedbackData f\<rparr>, s\<lparr>feedbacks := f # feedbacks s\<rparr>))
      | [f] \<Rightarrow>
          (let f' = f\<lparr>fb_rating := rating,
                      fb_note := (if note \<noteq> None then Some (or_empty note) else fb_note f)\<rparr>
           in (Inr \<lparr>status = 200, content = FeedbackData f'\<rparr>, save_feedback f' s))
      | _ \<Rightarrow> (Inl MultipleObjectsReturned, s))))"

subsection \<open>\<^verbatim>\<open>InsightsView.get\<close>\<close>

definition include_summary_param :: "string option \<Rightarrow> bool" where
  "include_summary_param q = (lower (case q of None \<Rightarrow> ''true'' | Some v \<Rightarrow> v) \<noteq> ''false'')"

definition percentage :: "nat \<Rightarrow> nat \<Rightarrow> py_error + float" where
  "percentage part whole =
     (if whole > 0
      then case int_truediv part whole of Inl e \<Rightarrow> Inl e | Inr q \<Rightarrow> Inr (float_mul q 100)
      else Inr 0)"

definition feedback_notes :: "store \<Rightarrow> string option list" where
  "feedback_notes s =
     map fb_note (filter (\<lambda>f. fb_note f \<noteq> Some []) (filter (\<lambda>f. fb_note f \<noteq> None) (feedbacks s)))"

fun conversations_with_scores :: "store \<Rightarrow> conversation list \<Rightarrow> py_error + conversation_entry list" where
  "conversations_with_scores s [] = Inr []"
| "conversations_with_scores s (conv # convs) =
     (case calculate_quality_score s conv of
        Inl e \<Rightarrow> Inl e
      | Inr score \<Rightarrow>
          (case conversations_with_scores s convs of
             Inl e \<Rightarrow> Inl e
           | Inr rest \<Rightarrow>
               Inr (\<lparr>entry_id = conv_id conv, entry_title = conv_title conv,
                      quality_score = score,
                      entry_total_messages = length (conversation_messages s (conv_id conv)),
                      entry_feedback_count = length (feedback_on s (ai_messages s conv))\<rparr>
                    # rest)))"

definition defined_scores :: "conversation_entry list \<Rightarrow> float list" where
  "defined_scores es = concat (map (\<lambda>e. case quality_score e of None \<Rightarrow> [] | Some x \<Rightarrow> [x]) es)"

definition quality_distribution :: "float list \<Rightarrow> distribution" where
  "quality_distribution scores =
     \<lparr>excellent = length (filter (\<lambda>x. 80 \<le> x) scores),
      good = length (filter (\<lambda>x. 60 \<le> x \<and> x < 80) scores),
      fair = length (filter (\<lambda>x. 40 \<le> x \<and> x < 60) scores),
      poor = length (filter (\<lambda>x. x < 40) scores)\<rparr>"

text \<open>
  \<^verbatim>\<open>sum\<close> adds from the left, starting at the integer 0, and rounds after every
  addition (the compensated summation of recent interpreters is not modelled; no
  claim depends on the last digits of the average).
\<close>

definition float_sum :: "float list \<Rightarrow> float" where
  "float_sum xs = foldl float_add 0 xs"

definition avg_quality_score :: "float list \<Rightarrow> py_error + float option" where
  "avg_quality_score scores =
     (if scores \<noteq> []
      then case float_div (float_sum scores) (length scores) of
             Inl e \<Rightarrow> Inl e
           | Inr x \<Rightarrow> Inr (Some (round2 x))
      else Inr None)"

text \<open>
  The view in two parts. \<open>gather_statistics\<close> is the body up to the summary: it
  yields the report, still without a summary, and the prompt built from the same
  numbers. \<open>InsightsView_get\<close> then asks the generator, or does not. It returns the
  response, or the exception that leaves the view, together with the list of the
  calls it made to the generator.
\<close>

definition gather_statistics :: "store \<Rightarrow> py_error + (insights \<times> prompt)" where
  "gather_statistics s =
     (let u = \<lparr>total_conversations = length (conversations s),
               total_messages = length (messages s),
               total_user_messages = length (filter (\<lambda>m. msg_role m = ROLE_USER) (messages s)),
               total_ai_messages = length (filter (\<lambda>m. msg_role m = ROLE_AI) (messages s))\<rparr>;
          tf = length (feedbacks s);
          pf = length (filter (\<lambda>f. fb_rating f = True) (feedbacks s));
          nf = length (filter (\<lambda>f. fb_rating f = False) (feedbacks s))
      in case percentage pf tf of
        Inl e \<Rightarrow> Inl e
      | Inr sat_rate \<Rightarrow>
     (case percentage tf (total_ai_messages u) of
        Inl e \<Rightarrow> Inl e
      | Inr fb_rate \<Rightarrow>
     (let top_themes = extract_feedback_themes (feedback_notes s) 10
      in case conversations_with_scores s (conversations s) of
        Inl e \<Rightarrow> Inl e
      | Inr convs \<Rightarrow>
     (let scores = defined_scores convs;
          dist = quality_distribution scores
      in case avg_quality_score scores of
        Inl e \<Rightarrow> Inl e
      | Inr avg \<Rightarrow>
          Inr (\<lparr>usage = u,
                feedback_stats =
                  \<lparr>total_feedback = tf, positive_feedback = pf, negative_feedback = nf,
                   satisfaction_rate = round2 sat_rate, feedback_rate = round2 fb_rate\<rparr>,
                themes = top_themes,
                quality_scores = \<lparr>average = avg, spread = dist, entries = take 20 convs\<rparr>,
                summary = None\<rparr>,
               SummaryPrompt u tf sat_rate fb_rate pf nf
                 (if avg = None \<or> avg = Some 0 then None else avg) dist
                 (if top_themes = [] then None else Some (map word (take 5 top_themes))))))))"

definition InsightsView_get ::
    "generator \<Rightarrow> store \<Rightarrow> string option \<Rightarrow> (py_error + response) \<times> (history \<times> prompt) list" where
  "InsightsView_get gen s q =
     (let include_summary = include_summary_param q
      in case gather_statistics s of
        Inl e \<Rightarrow> (Inl e, [])
      | Inr (report, summary_prompt) \<Rightarrow>
          if include_summary
          then case gen [] summary_prompt of
                 Inr text \<Rightarrow>
                   (Inr \<lparr>status = 200, content = InsightsData (report\<lparr>summary := Some text\<rparr>)\<rparr>,
                    [([], summary_prompt)])
               | Inl (GeminiServiceError e) \<Rightarrow>
                   (Inr \<lparr>status = 200, content = InsightsData (report\<lparr>summary := None\<rparr>)\<rparr>,
                    [([], summary_prompt)])
               | Inl e \<Rightarrow> (Inl e, [([], summary_prompt)])
          else (Inr \<lparr>status = 200, content = InsightsData report\<rparr>, []))"

section \<open>Vocabulary of the statements\<close>

text \<open>
  The definitions of this section are not part of the program. They name what the
  claims talk about.
\<close>

subsection \<open>Tokens\<close>

text \<open>
  \<open>letter_runs\<close> is the tokenisation in the words of the specification: the maximal
  runs of the letters \<^verbatim>\<open>a-z\<close>. \<open>word_tokens\<close> is what the regex yields: the
  maximal runs of word characters (letters, digits, underscore) that are made of the
  letters \<^verbatim>\<open>a-z\<close> only. \<open>cased_tokens\<close> are the same runs in a text that has not
  been lower-cased, so made of letters of either case.
\<close>

definition letter_runs :: "string \<Rightarrow> string list" where
  "letter_runs s = runs is_az s"

definition word_tokens :: "string \<Rightarrow> string list" where
  "word_tokens s = filter (list_all is_az) (runs is_word_char s)"

definition inside_word :: "char option \<Rightarrow> bool" where
  "inside_word prev = (case prev of None \<Rightarrow> False | Some c \<Rightarrow> is_word_char c)"

definition is_letter :: "char \<Rightarrow> bool" where
  "is_letter c = (is_az c \<or> is_AZ c)"

definition cased_tokens :: "string \<Rightarrow> string list" where
  "cased_tokens s = filter (list_all is_letter) (runs is_word_char s)"

definition all_tokens :: "string option list \<Rightarrow> string list" where
  "all_tokens ns = concat (map (\<lambda>n. case n of None \<Rightarrow> [] | Some nt \<Rightarrow> cased_tokens nt) ns)"

definition ascii_notes :: "string option list \<Rightarrow> bool" where
  "ascii_notes ns = list_all (\<lambda>n. case n of None \<Rightarrow> True | Some nt \<Rightarrow> ascii nt) ns"

definition keep_word :: "string \<Rightarrow> bool" where
  "keep_word w = (w \<notin> set STOP_WORDS \<and> length w > 3)"

subsection \<open>The stream of counted words\<close>

text \<open>
  \<open>surviving_words\<close> lists, in input order, the words of all notes that pass the
  filter; it is the sequence of keys the frequency table is fed with.
  \<open>first_seen ws w\<close> is the position of the first occurrence of \<open>w\<close> in \<open>ws\<close>.
\<close>

definition surviving_words :: "string option list \<Rightarrow> string list" where
  "surviving_words ns =
     concat (map (\<lambda>n. case n of None \<Rightarrow> []
                         | Some nt \<Rightarrow> if nt \<noteq> [] then note_words nt else []) ns)"

definition first_seen :: "string list \<Rightarrow> string \<Rightarrow> nat" where
  "first_seen ws w = length (takeWhile (\<lambda>v. v \<noteq> w) ws)"

definition counter_get :: "counter \<Rightarrow> string \<Rightarrow> nat" where
  "counter_get cnt w = (case map_of cnt w of None \<Rightarrow> 0 | Some c \<Rightarrow> c)"

definition ranked :: "('a \<Rightarrow> int) \<Rightarrow> ('a \<Rightarrow> 'a \<Rightarrow> bool) \<Rightarrow> 'a \<Rightarrow> 'a \<Rightarrow> bool" where
  "ranked f Q a b = (f a < f b \<or> (f a = f b \<and> Q a b))"

subsection \<open>Numbers\<close>

text \<open>
  \<open>score_formula\<close> is the formula of the specification,
  \<^verbatim>\<open>round((p / f * 0.7 + f / t * 0.3) * 100, 2)\<close>, with each operation rounded as
  Python rounds it. \<open>rate_formula\<close> is \<^verbatim>\<open>round(a / b * 100, 2)\<close>, and 0 when
  \<open>b\<close> is 0.
\<close>

definition expo :: "rat \<Rightarrow> int" where
  "expo x = max (binade x) (- 1022)"

definition score_formula :: "nat \<Rightarrow> nat \<Rightarrow> nat \<Rightarrow> float" where
  "score_formula p f t =
     round2 (float_mul
       (float_add (float_mul (fl (of_nat p / of_nat f)) lit_0_7)
                  (float_mul (fl (of_nat f / of_nat t)) lit_0_3))
       100)"

definition rate_formula :: "nat \<Rightarrow> nat \<Rightarrow> float" where
  "rate_formula a b = (if b = 0 then 0 else round2 (float_mul (fl (of_nat a / of_nat b)) 100))"

subsection \<open>Stores\<close>

text \<open>
  \<open>store_ok\<close>: primary keys are unique, no message has two feedback rows, and every
  feedback row belongs to a stored message of role \<open>ai\<close>. \<open>reachable\<close>: the stores
  the four writing views can produce, from any store that has no feedback yet.
\<close>

definition store_ok :: "store \<Rightarrow> bool" where
  "store_ok s =
     (distinct (map msg_id (messages s)) \<and>
      distinct (map fb_id (feedbacks s)) \<and>
      distinct (map fb_message (feedbacks s)) \<and>
      (\<forall>f \<in> set (feedbacks s). \<exists>m \<in> set (messages s). msg_id m = fb_message f \<and> msg_role m = ROLE_AI))"

inductive reachable :: "store \<Rightarrow> bool" where
  start: "feedbacks s = [] \<Longrightarrow> distinct (map msg_id (messages s)) \<Longrightarrow> reachable s"
| create_conversation: "reachable s \<Longrightarrow> reachable (snd (ConversationListCreateView_post s t))"
| patch_conversation: "reachable s \<Longrightarrow> reachable (snd (ConversationDetailView_patch s pk t))"
| post_message: "reachable s \<Longrightarrow> reachable (snd (MessageListCreateView_post gen s pk t))"
| post_feedback: "reachable s \<Longrightarrow> reachable (snd (MessageFeedbackView_post s mid req))"

definition new_feedback :: "store \<Rightarrow> nat \<Rightarrow> bool \<Rightarrow> string option \<Rightarrow> feedback" where
  "new_feedback s mid rating nt =
     \<lparr>fb_id = new_id (map fb_id (feedbacks s)), fb_message = mid,
      fb_rating = rating, fb_note = Some (or_empty nt)\<rparr>"

definition updated_feedback :: "feedback \<Rightarrow> bool \<Rightarrow> string option \<Rightarrow> feedback" where
  "updated_feedback f rating nt =
     f\<lparr>fb_rating := rating, fb_note := (if nt \<noteq> None then Some (or_empty nt) else fb_note f)\<rparr>"

definition untitled :: "conversation \<Rightarrow> bool" where
  "untitled conv = (conv_title conv = None \<or> conv_title conv = Some [])"

text \<open>
  A generator is \<open>classified\<close> when the only exception it raises is
  \<open>GeminiServiceError\<close>, as \<open>generate_reply\<close> does.
\<close>

definition classified :: "generator \<Rightarrow> bool" where
  "classified gen = (\<forall>h p e. gen h p = Inl e \<longrightarrow> (\<exists>m. e = GeminiServiceError m))"

subsection \<open>Example data\<close>

text \<open>
  A store with one untitled conversation of three AI messages, all rated, two of them
  positively; the report the insights view builds from it; a store with one user
  message only; and an environment in which the API key is missing.
\<close>

definition empty_store :: store where
  "empty_store = \<lparr>conversations = [], messages = [], feedbacks = []\<rparr>"

definition chat :: conversation where
  "chat = \<lparr>conv_id = 1, conv_title = None\<rparr>"

definition fresh_store :: store where
  "fresh_store = \<lparr>conversations = [chat], messages = [], feedbacks = []\<rparr>"

definition asked_store :: store where
  "asked_store =
     \<lparr>conversations = [chat],
      messages =
        [\<lparr>msg_id = 1, msg_conversation = 1, msg_role = ROLE_USER, msg_text = ''Hello'',
          msg_sequence = 1\<rparr>],
      feedbacks = []\<rparr>"

definition answered_store :: store where
  "answered_store =
     \<lparr>conversations = [chat],
      messages =
        [\<lparr>msg_id = 1, msg_conversation = 1, msg_role = ROLE_AI, msg_text = ''AI 1'',
          msg_sequence = 1\<rparr>,
         \<lparr>msg_id = 2, msg_conversation = 1, msg_role = ROLE_AI, msg_text = ''AI 2'',
          msg_sequence = 2\<rparr>,
         \<lparr>msg_id = 3, msg_conversation = 1, msg_role = ROLE_AI, msg_text = ''AI 3'',
          msg_sequence = 3\<rparr>],
      feedbacks = []\<rparr>"

definition rated_store :: store where
  "rated_store =
     answered_store\<lparr>feedbacks :=
        [\<lparr>fb_id = 3, fb_message = 3, fb_rating = False, fb_note = Some []\<rparr>,
         \<lparr>fb_id = 2, fb_message = 2, fb_rating = True, fb_note = Some []\<rparr>,
         \<lparr>fb_id = 1, fb_message = 1, fb_rating = True, fb_note = Some ''Clear and clear''\<rparr>]\<rparr>"

definition rated_report :: insights where
  "rated_report =
     \<lparr>usage = \<lparr>total_conversations = 1, total_messages = 3, total_user_messages = 0,
               total_ai_messages = 3\<rparr>,
      feedback_stats =
        \<lparr>total_feedback = 3, positive_feedback = 2, negative_feedback = 1,
         satisfaction_rate = fl (6667 / 100), feedback_rate = 100\<rparr>,
      themes = [\<lparr>word = ''clear'', count = 2\<rparr>],
      quality_scores =
        \<lparr>average = Some (fl (7667 / 100)),
         spread = \<lparr>excellent = 0, good = 1, fair = 0, poor = 0\<rparr>,
         entries = [\<lparr>entry_id = 1, entry_title = None, quality_score = Some (fl (7667 / 100)),
                     entry_total_messages = 3, entry_feedback_count = 3\<rparr>]\<rparr>,
      summary = None\<rparr>"

definition no_key :: gemini_env where
  "no_key = \<lparr>GEMINI_API_KEY = None, GEMINI_MODEL = None, genai_import_error = None,
             generate_content = (\<lambda>m p. Inr None)\<rparr>"

definition thumbs_down :: feedback_request where
  "thumbs_down = \<lparr>rating_field = Value False, note_field = Absent\<rparr>"

definition thumbs_up :: "string \<Rightarrow> feedback_request" where
  "thumbs_up t = \<lparr>rating_field = Value True, note_field = Value t\<rparr>"

definition long_question :: string where
  "long_question = ''  Tell me about the history of the Roman empire and its fall, please  ''"

text \<open>
  An environment whose remote call answers, with white space around the text, and the
  prompt that the insights view builds on \<open>rated_store\<close>.
\<close>

definition with_key :: gemini_env where
  "with_key = \<lparr>GEMINI_API_KEY = Some ''secret'', GEMINI_MODEL = None,
                genai_import_error = None,
                generate_content = (\<lambda>m p. Inr (Some '' Two of three replies were liked. ''))\<rparr>"

definition rated_prompt :: prompt where
  "rated_prompt =
     SummaryPrompt (usage rated_report) 3 (fl (fl (2 / 3) * 100)) 100 2 1
       (Some (fl (7667 / 100))) \<lparr>excellent = 0, good = 1, fair = 0, poor = 0\<rparr>
       (Some [''clear''])"

section \<open>Lemmas\<close>

subsection \<open>The tokeniser\<close>

lemma is_az_word: "is_az c \<Longrightarrow> is_word_char c"
  by (simp add: is_word_char_def)

lemma takeWhile_az_all:
  "list_all is_az (takeWhile is_word_char s) \<Longrightarrow> takeWhile is_az s = takeWhile is_word_char s"
  by (induction s) (auto simp: is_az_word)

lemma takeWhile_az_less:
  "\<not> list_all is_az (takeWhile is_word_char s) \<Longrightarrow>
     length (takeWhile is_az s) < length (takeWhile is_word_char s)"
  by (induction s) (auto simp: is_az_word split: if_splits)

lemma takeWhile_index: "k < length (takeWhile P s) \<Longrightarrow> k < length s \<and> P (s ! k)"
proof
  assume k: "k < length (takeWhile P s)"
  have "length (takeWhile P s) \<le> length s"
    by (rule length_takeWhile_le)
  with k show "k < length s" by simp
  from k have "takeWhile P s ! k \<in> set (takeWhile P s)"
    by (rule nth_mem)
  then have "P (takeWhile P s ! k)"
    by (rule set_takeWhileD[THEN conjunct2])
  with k show "P (s ! k)"
    by (simp add: takeWhile_nth)
qed

lemma after_takeWhile:
  "char_at s (length (takeWhile P s)) = Some c \<Longrightarrow> \<not> P c"
  by (auto simp: char_at_def nth_length_takeWhile split: if_splits)

lemma match_end_none:
  "(\<And>k. k < n \<Longrightarrow> \<not> word_boundary (char_at s k) (char_at s (Suc k))) \<Longrightarrow> match_end s n = None"
  by (induction n) auto

lemma match_end_top:
  "word_boundary (char_at s n) (char_at s (Suc n)) \<Longrightarrow> match_end s (Suc n) = Some (Suc n)"
  by simp

lemma word_tokens_Nil: "word_tokens [] = []"
  by (simp add: word_tokens_def)

lemma word_tokens_skip: "\<not> is_word_char c \<Longrightarrow> word_tokens (c # cs) = word_tokens cs"
  by (simp add: word_tokens_def)

lemma word_tokens_run:
  "is_word_char c \<Longrightarrow> word_tokens (c # cs) =
     (if list_all is_az (c # takeWhile is_word_char cs)
      then (c # takeWhile is_word_char cs) # word_tokens (dropWhile is_word_char cs)
      else word_tokens (dropWhile is_word_char cs))"
  by (simp add: word_tokens_def)

lemma match_here_word_start_all:
  assumes "\<not> inside_word prev" "is_word_char c" "list_all is_az (c # takeWhile is_word_char cs)"
  shows "match_here prev (c # cs) = Some (Suc (length (takeWhile is_word_char cs)))"
proof -
  let ?s = "c # cs"
  let ?n = "length (takeWhile is_word_char cs)"
  from assms(2,3) have tw: "takeWhile is_az ?s = takeWhile is_word_char ?s"
    by (intro takeWhile_az_all) simp
  have "length (takeWhile is_az ?s) = length (takeWhile is_word_char ?s)"
    by (simp only: tw)
  with assms(2) have len: "length (takeWhile is_az ?s) = Suc ?n"
    by simp
  have b0: "word_boundary prev (char_at ?s 0)"
    using assms(1,2) by (simp add: word_boundary_def char_at_def inside_word_def)
  have inw: "?n < length (takeWhile is_word_char ?s)"
    using assms(2) by simp
  from takeWhile_index[OF inw] have w: "char_at ?s ?n = Some (?s ! ?n)" "is_word_char (?s ! ?n)"
    by (simp_all add: char_at_def)
  have nw: "case char_at ?s (Suc ?n) of None \<Rightarrow> True | Some d \<Rightarrow> \<not> is_word_char d"
  proof (cases "char_at ?s (Suc ?n)")
    case None
    then show ?thesis by simp
  next
    case (Some d)
    have "Suc ?n = length (takeWhile is_word_char ?s)"
      using assms(2) by simp
    with Some have "char_at ?s (length (takeWhile is_word_char ?s)) = Some d"
      by simp
    then have "\<not> is_word_char d"
      by (rule after_takeWhile)
    with Some show ?thesis by simp
  qed
  have "word_boundary (char_at ?s ?n) (char_at ?s (Suc ?n))"
    using w nw by (auto simp: word_boundary_def split: option.splits)
  then have "match_end ?s (Suc ?n) = Some (Suc ?n)"
    by (rule match_end_top)
  with b0 len show ?thesis
    by (simp add: match_here_def)
qed

lemma match_here_word_start_mixed:
  assumes "is_word_char c" "\<not> list_all is_az (c # takeWhile is_word_char cs)"
  shows "match_here prev (c # cs) = None"
proof -
  let ?s = "c # cs"
  let ?m = "length (takeWhile is_az ?s)"
  from assms have "\<not> list_all is_az (takeWhile is_word_char ?s)"
    by simp
  then have less: "?m < length (takeWhile is_word_char ?s)"
    by (rule takeWhile_az_less)
  have "match_end ?s ?m = None"
  proof (rule match_end_none)
    fix k assume k: "k < ?m"
    with less have "k < length (takeWhile is_word_char ?s)"
      by simp
    then have here: "k < length ?s \<and> is_word_char (?s ! k)"
      by (rule takeWhile_index)
    from k less have "Suc k < length (takeWhile is_word_char ?s)"
      by simp
    then have "Suc k < length ?s \<and> is_word_char (?s ! Suc k)"
      by (rule takeWhile_index)
    with here show "\<not> word_boundary (char_at ?s k) (char_at ?s (Suc k))"
      by (simp add: word_boundary_def char_at_def)
  qed
  then show ?thesis
    by (simp add: match_here_def)
qed

lemma match_here_no_boundary:
  "inside_word prev = is_word_char c \<Longrightarrow> match_here prev (c # cs) = None"
  by (simp add: match_here_def word_boundary_def char_at_def inside_word_def)

lemma match_here_not_letter:
  "\<not> is_word_char c \<Longrightarrow> match_here prev (c # cs) = None"
  using is_az_word[of c] by (auto simp: match_here_def)

lemma findall_from_tokens:
  "findall_from prev s =
     (if inside_word prev then word_tokens (dropWhile is_word_char s) else word_tokens s)"
proof (induction prev s rule: findall_from.induct)
  case (1 prev)
  show ?case by (simp add: word_tokens_Nil)
next
  case (2 prev c cs)
  show ?case
  proof (cases "is_word_char c")
    case False
    then have none: "match_here prev (c # cs) = None"
      by (rule match_here_not_letter)
    from False have "\<not> inside_word (Some c)"
      by (simp add: inside_word_def)
    with "2.IH"(1)[OF none] have "findall_from (Some c) cs = word_tokens cs"
      by simp
    with none False show ?thesis
      by (simp add: word_tokens_skip)
  next
    case True
    then have inw: "inside_word (Some c)"
      by (simp add: inside_word_def)
    show ?thesis
    proof (cases "inside_word prev")
      case True
      with \<open>is_word_char c\<close> have none: "match_here prev (c # cs) = None"
        by (intro match_here_no_boundary) simp
      from "2.IH"(1)[OF none] inw
      have "findall_from (Some c) cs = word_tokens (dropWhile is_word_char cs)"
        by simp
      with none True \<open>is_word_char c\<close> show ?thesis
        by simp
    next
      case False
      show ?thesis
      proof (cases "list_all is_az (c # takeWhile is_word_char cs)")
        case all: True
        let ?n = "length (takeWhile is_word_char cs)"
        have some: "match_here prev (c # cs) = Some (Suc ?n)"
          using False \<open>is_word_char c\<close> all by (rule match_here_word_start_all)
        have tk: "take (Suc ?n) (c # cs) = c # takeWhile is_word_char cs"
          by (simp add: takeWhile_eq_take[symmetric])
        have dr: "drop (Suc ?n) (c # cs) = dropWhile is_word_char cs"
          by (simp add: dropWhile_eq_drop[symmetric])
        have "?n < length (takeWhile is_word_char (c # cs))"
          using \<open>is_word_char c\<close> by simp
        then have "?n < length (c # cs) \<and> is_word_char ((c # cs) ! ?n)"
          by (rule takeWhile_index)
        then have "inside_word (char_at (c # cs) (Suc ?n - 1))"
          by (simp add: char_at_def inside_word_def)
        with "2.IH"(2)[OF some]
        have "findall_from (char_at (c # cs) (Suc ?n - 1)) (drop (Suc ?n) (c # cs))
            = word_tokens (dropWhile is_word_char (drop (Suc ?n) (c # cs)))"
          by simp
        also have "\<dots> = word_tokens (dropWhile is_word_char cs)"
          unfolding dr by (simp add: dropWhile_idem)
        finally have rest: "findall_from (char_at (c # cs) (Suc ?n - 1)) (drop (Suc ?n) (c # cs))
            = word_tokens (dropWhile is_word_char cs)" .
        have "findall_from prev (c # cs) =
            take (Suc ?n) (c # cs) # findall_from (char_at (c # cs) (Suc ?n - 1)) (drop (Suc ?n) (c # cs))"
          using some by simp
        also have "\<dots> = (c # takeWhile is_word_char cs) # word_tokens (dropWhile is_word_char cs)"
          unfolding rest tk ..
        also have "\<dots> = word_tokens (c # cs)"
          using all \<open>is_word_char c\<close> by (simp add: word_tokens_run)
        finally show ?thesis
          using False by simp
      next
        case mixed: False
        have none: "match_here prev (c # cs) = None"
          using \<open>is_word_char c\<close> mixed by (rule match_here_word_start_mixed)
        from "2.IH"(1)[OF none] inw
        have "findall_from (Some c) cs = word_tokens (dropWhile is_word_char cs)"
          by simp
        with none False mixed \<open>is_word_char c\<close> show ?thesis
          by (simp add: word_tokens_run)
      qed
    qed
  qed
qed

subsection \<open>The frequency table and its ranking\<close>

lemma counter_update_append:
  "counter_update cnt (ws @ vs) = counter_update (counter_update cnt ws) vs"
  by (simp add: counter_update_def)

lemma count_notes_stream: "count_notes cnt ns = counter_update cnt (surviving_words ns)"
proof (induction cnt ns rule: count_notes.induct)
  case (1 word_counter)
  show ?case by (simp add: surviving_words_def counter_update_def)
next
  case (2 word_counter ns)
  then show ?case by (simp add: surviving_words_def)
next
  case (3 word_counter nt ns)
  then show ?case
    by (cases "nt = []") (simp_all add: surviving_words_def counter_update_append)
qed

lemma keys_counter_incr:
  "map fst (counter_incr cnt w) = (if w \<in> set (map fst cnt) then map fst cnt else map fst cnt @ [w])"
  by (induction cnt w rule: counter_incr.induct) auto

lemma get_counter_incr:
  "counter_get (counter_incr cnt w) v = counter_get cnt v + (if v = w then 1 else 0)"
  by (induction cnt w rule: counter_incr.induct) (auto simp: counter_get_def)

lemma counter_update_snoc:
  "counter_update cnt (ws @ [w]) = counter_incr (counter_update cnt ws) w"
  by (simp add: counter_update_def)

lemma keys_counter_incr_set: "fst ` set (counter_incr cnt w) = insert w (fst ` set cnt)"
  by (induction cnt w rule: counter_incr.induct) auto

lemma keys_counter_update_set: "fst ` set (counter_update [] ws) = set ws"
proof (induction ws rule: rev_induct)
  case Nil
  show ?case by (simp add: counter_update_def)
next
  case (snoc w ws)
  then show ?case
    by (simp add: counter_update_snoc keys_counter_incr_set)
qed

lemma keys_counter_update_distinct: "distinct (map fst (counter_update [] ws))"
proof (induction ws rule: rev_induct)
  case Nil
  show ?case by (simp add: counter_update_def)
next
  case (snoc w ws)
  then show ?case
    by (simp add: counter_update_snoc keys_counter_incr)
qed

lemma get_counter_update: "counter_get (counter_update [] ws) v = count_list ws v"
proof (induction ws rule: rev_induct)
  case Nil
  show ?case by (simp add: counter_update_def counter_get_def)
next
  case (snoc w ws)
  then show ?case
    by (simp add: counter_update_snoc get_counter_incr)
qed

lemma counter_update_entry:
  assumes "(w, c) \<in> set (counter_update [] ws)"
  shows "w \<in> set ws \<and> c = count_list ws w"
proof
  from assms have "w \<in> fst ` set (counter_update [] ws)"
    by force
  then show "w \<in> set ws"
    by (simp only: keys_counter_update_set)
  from assms have "map_of (counter_update [] ws) w = Some c"
    by (simp add: keys_counter_update_distinct)
  then have "counter_get (counter_update [] ws) w = c"
    by (simp add: counter_get_def)
  then show "c = count_list ws w"
    by (simp add: get_counter_update)
qed

lemma first_seen_less: "w \<in> set ws \<Longrightarrow> first_seen ws w < length ws"
  unfolding first_seen_def
  by (induction ws) auto

lemma first_seen_snoc_old: "v \<in> set ws \<Longrightarrow> first_seen (ws @ [w]) v = first_seen ws v"
  unfolding first_seen_def
  by (induction ws) auto

lemma first_seen_snoc_new: "w \<notin> set ws \<Longrightarrow> first_seen (ws @ [w]) w = length ws"
  unfolding first_seen_def
  by (induction ws) auto

lemma sorted_wrt_cong_set:
  "(\<And>a b. a \<in> set xs \<Longrightarrow> b \<in> set xs \<Longrightarrow> P a b = Q a b) \<Longrightarrow> sorted_wrt P xs = sorted_wrt Q xs"
  by (induction xs) auto

lemma keys_counter_update_order:
  "sorted_wrt (\<lambda>a b. first_seen ws a < first_seen ws b) (map fst (counter_update [] ws))"
proof (induction ws rule: rev_induct)
  case Nil
  show ?case by (simp add: counter_update_def)
next
  case (snoc w ws)
  let ?keys = "map fst (counter_update [] ws)"
  have old: "sorted_wrt (\<lambda>a b. first_seen (ws @ [w]) a < first_seen (ws @ [w]) b) ?keys"
  proof -
    have "sorted_wrt (\<lambda>a b. first_seen (ws @ [w]) a < first_seen (ws @ [w]) b) ?keys
        = sorted_wrt (\<lambda>a b. first_seen ws a < first_seen ws b) ?keys"
      by (rule sorted_wrt_cong_set) (simp add: keys_counter_update_set first_seen_snoc_old)
    with snoc.IH show ?thesis by simp
  qed
  show ?case
  proof (cases "w \<in> set ws")
    case True
    then have "map fst (counter_update [] (ws @ [w])) = ?keys"
      by (simp add: counter_update_snoc keys_counter_incr keys_counter_update_set)
    with old show ?thesis by simp
  next
    case False
    then have keys: "map fst (counter_update [] (ws @ [w])) = ?keys @ [w]"
      by (simp add: counter_update_snoc keys_counter_incr keys_counter_update_set)
    have "\<forall>k \<in> set ?keys. first_seen (ws @ [w]) k < first_seen (ws @ [w]) w"
    proof
      fix k assume "k \<in> set ?keys"
      then have "k \<in> set ws"
        by (simp add: keys_counter_update_set)
      then show "first_seen (ws @ [w]) k < first_seen (ws @ [w]) w"
        using False by (simp add: first_seen_snoc_old first_seen_snoc_new first_seen_less)
    qed
    with old show ?thesis
      unfolding keys by (simp add: sorted_wrt_append)
  qed
qed

lemma ranked_le: "ranked f Q a b \<Longrightarrow> f a \<le> f b"
  by (auto simp: ranked_def)

lemma insort_key_ranked:
  "sorted_wrt (ranked f Q) ys \<Longrightarrow> (\<forall>y \<in> set ys. Q x y) \<Longrightarrow>
     sorted_wrt (ranked f Q) (insort_key f x ys)"
proof (induction ys)
  case Nil
  show ?case by simp
next
  case (Cons y ys)
  show ?case
  proof (cases "f x \<le> f y")
    case True
    have "ranked f Q x z" if "z \<in> set (y # ys)" for z
    proof -
      from that Cons.prems(1) have "f y \<le> f z"
        by (auto dest: ranked_le)
      with True have "f x \<le> f z" by simp
      moreover from that Cons.prems(2) have "Q x z" by auto
      ultimately show ?thesis by (auto simp: ranked_def)
    qed
    with True Cons.prems(1) show ?thesis by simp
  next
    case False
    then have "ranked f Q y x"
      by (simp add: ranked_def)
    moreover from Cons have "sorted_wrt (ranked f Q) (insort_key f x ys)"
      by simp
    ultimately show ?thesis
      using False Cons.prems(1) by (auto simp: set_insort_key)
  qed
qed

lemma sort_key_ranked:
  "sorted_wrt Q xs \<Longrightarrow> sorted_wrt (ranked f Q) (sort_key f xs)"
proof (induction xs)
  case Nil
  show ?case by simp
next
  case (Cons x xs)
  then have "sorted_wrt (ranked f Q) (sort_key f xs)" "\<forall>y \<in> set (sort_key f xs). Q x y"
    by simp_all
  then have "sorted_wrt (ranked f Q) (insort_key f x (sort_key f xs))"
    by (rule insort_key_ranked)
  then show ?case
    by (simp add: sort_key_def)
qed

lemma sorted_wrt_take: "sorted_wrt P xs \<Longrightarrow> sorted_wrt P (take n xs)"
proof -
  assume "sorted_wrt P xs"
  then have "sorted_wrt P (take n xs @ drop n xs)" by simp
  then show ?thesis unfolding sorted_wrt_append by simp
qed

lemma most_common_subset: "set (most_common n cnt) \<subseteq> set cnt"
proof -
  have "set (take (nat n) (sort_key (\<lambda>(w, c). - int c) cnt)) \<subseteq> set (sort_key (\<lambda>(w, c). - int c) cnt)"
    by (rule set_take_subset)
  then show ?thesis by (simp add: most_common_def)
qed

lemma most_common_distinct: "distinct (map fst cnt) \<Longrightarrow> distinct (map fst (most_common n cnt))"
proof -
  assume "distinct (map fst cnt)"
  then have "distinct (map fst (sort_key (\<lambda>(w, c). - int c) cnt))"
    by (simp add: distinct_map)
  then have "distinct (take (nat n) (map fst (sort_key (\<lambda>(w, c). - int c) cnt)))"
    by (rule distinct_take)
  then show ?thesis by (simp add: most_common_def take_map)
qed

lemma most_common_order:
  assumes "sorted_wrt (\<lambda>a b. (pos a :: nat) < pos b) (map fst cnt)"
  shows "sorted_wrt (\<lambda>a b. snd a > snd b \<or> (snd a = snd b \<and> pos (fst a) < pos (fst b)))
           (most_common n cnt)"
proof -
  let ?f = "\<lambda>(w :: string, c :: nat). - int c"
  let ?Q = "\<lambda>a b :: string \<times> nat. (pos (fst a) :: nat) < pos (fst b)"
  from assms have "sorted_wrt ?Q cnt"
    by (simp add: sorted_wrt_map)
  then have "sorted_wrt (ranked ?f ?Q) (sort_key ?f cnt)"
    by (rule sort_key_ranked)
  then have "sorted_wrt (ranked ?f ?Q) (most_common n cnt)"
    unfolding most_common_def by (rule sorted_wrt_take)
  moreover have "ranked ?f ?Q = (\<lambda>a b. snd a > snd b \<or> (snd a = snd b \<and> pos (fst a) < pos (fst b)))"
    by (auto simp: ranked_def fun_eq_iff)
  ultimately show ?thesis by simp
qed

lemma note_words_filtered: "w \<in> set (note_words note) \<Longrightarrow> w \<notin> set STOP_WORDS \<and> 3 < length w"
  by (simp add: note_words_def)

lemma surviving_words_filtered:
  "w \<in> set (surviving_words notes) \<Longrightarrow> w \<notin> set STOP_WORDS \<and> 3 < length w"
  by (auto simp: surviving_words_def split: option.splits if_splits dest: note_words_filtered)

lemma themes_entries:
  assumes "t \<in> set (extract_feedback_themes notes top_n)"
  shows "word t \<in> set (surviving_words notes) \<and> count t = count_list (surviving_words notes) (word t)"
proof -
  from assms obtain w c where t: "t = \<lparr>word = w, count = c\<rparr>"
    and "(w, c) \<in> set (most_common top_n (count_notes [] notes))"
    by (auto simp: extract_feedback_themes_def)
  with most_common_subset have "(w, c) \<in> set (counter_update [] (surviving_words notes))"
    by (auto simp: count_notes_stream)
  then have "w \<in> set (surviving_words notes) \<and> c = count_list (surviving_words notes) w"
    by (rule counter_update_entry)
  with t show ?thesis by simp
qed

lemma themes_words:
  "map word (extract_feedback_themes notes top_n) = map fst (most_common top_n (count_notes [] notes))"
  by (simp add: extract_feedback_themes_def case_prod_unfold comp_def)

lemma themes_distinct: "distinct (map word (extract_feedback_themes notes top_n))"
  unfolding themes_words count_notes_stream
  by (rule most_common_distinct) (rule keys_counter_update_distinct)

lemma themes_length: "length (extract_feedback_themes notes top_n) \<le> nat top_n"
  by (simp add: extract_feedback_themes_def most_common_def)

lemma themes_empty: "surviving_words notes = [] \<Longrightarrow> extract_feedback_themes notes top_n = []"
  by (simp add: extract_feedback_themes_def most_common_def count_notes_stream counter_update_def)

subsection \<open>Case folding\<close>

lemma code_lower_AZ: "is_AZ c \<Longrightarrow> code (lower_char c) = code c + 32"
  by (simp add: lower_char_def is_AZ_def code_def)

lemma is_az_lower_char: "is_az (lower_char c) = is_letter c"
proof (cases "is_AZ c")
  case True
  then have "code (lower_char c) = code c + 32"
    by (rule code_lower_AZ)
  with True show ?thesis
    by (simp add: is_az_def is_letter_def is_AZ_def)
next
  case False
  then show ?thesis
    by (simp add: lower_char_def is_letter_def)
qed

lemma is_word_lower_char: "is_word_char (lower_char c) = is_word_char c"
proof (cases "is_AZ c")
  case True
  then have "is_az (lower_char c)"
    by (simp add: is_az_lower_char is_letter_def)
  with True show ?thesis
    by (simp add: is_word_char_def)
next
  case False
  then show ?thesis
    by (simp add: lower_char_def)
qed

lemma runs_map: "runs P (map f s) = map (map f) (runs (P \<circ> f) s)"
proof (induction "P \<circ> f" s rule: runs.induct)
  case 1
  show ?case by simp
next
  case (2 c cs)
  then show ?case
    by (simp add: takeWhile_map dropWhile_map)
qed

lemma findall_lower: "findall_words (lower s) = map lower (cased_tokens s)"
proof -
  have w: "is_word_char \<circ> lower_char = is_word_char"
    by (simp add: fun_eq_iff is_word_lower_char)
  have l: "list_all is_az \<circ> map lower_char = list_all is_letter"
    by (simp add: fun_eq_iff list_all_iff is_az_lower_char)
  have "findall_words (lower s) = filter (list_all is_az) (runs is_word_char (map lower_char s))"
    by (simp add: findall_words_def findall_from_tokens inside_word_def word_tokens_def lower_def)
  also have "\<dots> = filter (list_all is_az) (map (map lower_char) (runs is_word_char s))"
    by (simp only: runs_map w)
  also have "\<dots> = map (map lower_char) (filter (list_all is_letter) (runs is_word_char s))"
    by (simp only: filter_map l)
  finally show ?thesis
    by (simp add: cased_tokens_def lower_def fun_eq_iff)
qed

lemma surviving_words_tokens:
  "surviving_words ns = filter keep_word (map lower (all_tokens ns))"
proof (induction ns)
  case Nil
  show ?case by (simp add: surviving_words_def all_tokens_def)
next
  case (Cons n ns)
  have "(case n of None \<Rightarrow> [] | Some nt \<Rightarrow> if nt \<noteq> [] then note_words nt else [])
      = filter keep_word (map lower (case n of None \<Rightarrow> [] | Some nt \<Rightarrow> cased_tokens nt))"
  proof (cases n)
    case None
    then show ?thesis by simp
  next
    case (Some nt)
    have "note_words nt = filter keep_word (map lower (cased_tokens nt))"
      by (simp add: note_words_def findall_lower keep_word_def[abs_def])
    moreover have "cased_tokens [] = []"
      by (simp add: cased_tokens_def)
    ultimately show ?thesis
      using Some by simp
  qed
  with Cons show ?case
    by (simp add: surviving_words_def all_tokens_def)
qed

lemma count_list_filter_map:
  "count_list (filter K (map f ts)) w = (if K w then length (filter (\<lambda>v. f v = w) ts) else 0)"
  by (induction ts) auto

lemma themes_count_variants:
  assumes "t \<in> set (extract_feedback_themes ns top_n)"
  shows "count t = length (filter (\<lambda>v. lower v = word t) (all_tokens ns))"
proof -
  from assms have w: "word t \<in> set (surviving_words ns)"
    and c: "count t = count_list (surviving_words ns) (word t)"
    by (simp_all add: themes_entries)
  from w have "keep_word (word t)"
    by (simp add: surviving_words_tokens)
  with c show ?thesis
    by (simp add: surviving_words_tokens count_list_filter_map)
qed

subsection \<open>Rounding to binary64\<close>

lemma round_half_even_close:
  "\<bar>x - of_int (round_half_even x)\<bar> \<le> 1 / 2"
proof -
  have "of_int \<lfloor>x\<rfloor> \<le> x" "x < of_int \<lfloor>x\<rfloor> + 1"
    by linarith+
  then show ?thesis
    by (auto simp: round_half_even_def Let_def)
qed

lemma round_half_even_mono:
  assumes "x \<le> y"
  shows "round_half_even x \<le> round_half_even y"
proof (rule ccontr)
  assume "\<not> round_half_even x \<le> round_half_even y"
  then have "round_half_even y + 1 \<le> round_half_even x"
    by simp
  then have gap: "(of_int (round_half_even y) :: rat) + 1 \<le> of_int (round_half_even x)"
    by (metis of_int_1 of_int_add of_int_le_iff)
  have "\<bar>x - of_int (round_half_even x)\<bar> \<le> 1 / 2" "\<bar>y - of_int (round_half_even y)\<bar> \<le> 1 / 2"
    by (rule round_half_even_close)+
  with gap assms have "x = y"
    by linarith
  with \<open>\<not> round_half_even x \<le> round_half_even y\<close> show False
    by simp
qed

lemma round_half_even_of_int: "round_half_even (of_int n) = n"
  by (simp add: round_half_even_def)

lemma of_int_pow2_le: "(2::int) ^ n \<le> k \<Longrightarrow> (2::rat) ^ n \<le> of_int k"
  by (metis of_int_le_iff of_int_numeral of_int_power)

lemma of_int_le_pow2: "k \<le> (2::int) ^ n \<Longrightarrow> (of_int k :: rat) \<le> 2 ^ n"
  by (metis of_int_le_iff of_int_numeral of_int_power)

lemma binade_ge1:
  assumes "1 \<le> x"
  shows "2 powi (binade x) \<le> x" and "x < 2 powi (binade x + 1)"
proof -
  from assms have pos: "0 < \<lfloor>x\<rfloor>" by linarith
  let ?b = "bitlen \<lfloor>x\<rfloor>"
  from pos have b1: "1 \<le> ?b"
    using bitlen_eq_zero_iff[of "\<lfloor>x\<rfloor>"] bitlen_nonneg[of "\<lfloor>x\<rfloor>"] by linarith
  from assms have e: "binade x = ?b - 1"
    by (simp add: binade_def)
  from bitlen_bounds[OF pos] have lo: "2 ^ nat (?b - 1) \<le> \<lfloor>x\<rfloor>" and hi: "\<lfloor>x\<rfloor> < 2 ^ nat ?b"
    by simp_all
  from lo have "(2::rat) ^ nat (?b - 1) \<le> of_int \<lfloor>x\<rfloor>"
    by (rule of_int_pow2_le)
  also have "\<dots> \<le> x" by linarith
  finally have "(2::rat) ^ nat (?b - 1) \<le> x" .
  with b1 show "2 powi (binade x) \<le> x"
    by (simp add: e power_int_nonneg_exp)
  from hi have "\<lfloor>x\<rfloor> + 1 \<le> 2 ^ nat ?b"
    by simp
  then have "(of_int (\<lfloor>x\<rfloor> + 1) :: rat) \<le> 2 ^ nat ?b"
    by (rule of_int_le_pow2)
  moreover have "x < of_int (\<lfloor>x\<rfloor> + 1)"
    by simp linarith
  ultimately have "x < 2 ^ nat ?b"
    by linarith
  with b1 show "x < 2 powi (binade x + 1)"
    by (simp add: e power_int_nonneg_exp)
qed

lemma binade_lt1:
  assumes "0 < x" "x < 1"
  shows "2 powi (binade x) \<le> x" and "x < 2 powi (binade x + 1)"
proof -
  let ?m = "\<lceil>1 / x\<rceil> - 1"
  let ?b = "bitlen ?m"
  from assms have "1 < 1 / x"
    by (simp add: field_simps)
  then have pos: "0 < ?m" by linarith
  then have b1: "1 \<le> ?b"
    using bitlen_eq_zero_iff[of ?m] bitlen_nonneg[of ?m] by linarith
  from assms have e: "binade x = - ?b"
    by (simp add: binade_def)
  from bitlen_bounds[OF pos] have lo: "2 ^ nat (?b - 1) \<le> ?m" and hi: "?m < 2 ^ nat ?b"
    by simp_all
  have m_lt: "of_int ?m < 1 / x" and m_ge: "1 / x \<le> of_int (?m + 1)"
    by linarith+
  from hi have "?m + 1 \<le> 2 ^ nat ?b"
    by simp
  then have "(of_int (?m + 1) :: rat) \<le> 2 ^ nat ?b"
    by (rule of_int_le_pow2)
  with m_ge have "1 / x \<le> 2 ^ nat ?b"
    by linarith
  with assms have "1 / 2 ^ nat ?b \<le> x"
    by (simp add: field_simps)
  moreover have "(2::rat) powi (- ?b) = 1 / 2 ^ nat ?b"
    using b1 by (simp add: power_int_minus_divide power_int_nonneg_exp)
  ultimately show "2 powi (binade x) \<le> x"
    by (simp add: e)
  from lo have "(2::rat) ^ nat (?b - 1) \<le> of_int ?m"
    by (rule of_int_pow2_le)
  with m_lt have "2 ^ nat (?b - 1) < 1 / x"
    by linarith
  with assms have "x < 1 / 2 ^ nat (?b - 1)"
    by (simp add: field_simps)
  moreover have "(2::rat) powi (- ?b + 1) = 1 / 2 ^ nat (?b - 1)"
  proof -
    have "- ?b + 1 = - (?b - 1)" by simp
    then have "(2::rat) powi (- ?b + 1) = 2 powi (- (?b - 1))" by simp
    also have "\<dots> = 1 / 2 powi (?b - 1)"
      by (rule power_int_minus_divide)
    also have "\<dots> = 1 / 2 ^ nat (?b - 1)"
      using b1 by (simp add: power_int_nonneg_exp)
    finally show ?thesis .
  qed
  ultimately show "x < 2 powi (binade x + 1)"
    by (simp add: e)
qed

lemma binade_bounds:
  assumes "0 < x"
  shows "2 powi (binade x) \<le> x" and "x < 2 powi (binade x + 1)"
  using assms binade_ge1[of x] binade_lt1[of x] by (cases "1 \<le> x"; simp)+

lemma binade_mono:
  assumes "0 < x" "x \<le> y"
  shows "binade x \<le> binade y"
proof (rule ccontr)
  assume "\<not> binade x \<le> binade y"
  then have "binade y + 1 \<le> binade x" by simp
  then have "(2::rat) powi (binade y + 1) \<le> 2 powi (binade x)"
    by (intro power_int_increasing) simp_all
  also have "\<dots> \<le> x"
    using assms(1) by (rule binade_bounds)
  finally have "2 powi (binade y + 1) \<le> y"
    using assms(2) by simp
  moreover from assms have "y < 2 powi (binade y + 1)"
    by (intro binade_bounds) simp
  ultimately show False by simp
qed

lemma ulp_expo: "ulp x = 2 powi (expo x - 52)"
  by (simp add: ulp_def expo_def)

lemma ulp_pos: "0 < ulp x"
  by (simp add: ulp_def)

lemma pow2_ratio: "(2::rat) powi a / 2 powi b = 2 powi (a - b)"
  by (simp add: power_int_diff)

lemma pow2_split: "(2::rat) ^ k * 2 powi (e - int k) = 2 powi e"
proof -
  have "(2::rat) powi (int k + (e - int k)) = 2 powi (int k) * 2 powi (e - int k)"
    by (rule power_int_add) simp
  then show ?thesis by simp
qed

lemma fl_times: "x \<noteq> 0 \<Longrightarrow> fl x = of_int (round_half_even (x / ulp x)) * ulp x"
  by (simp add: fl_def)

lemma fl_upper:
  assumes "0 < x"
  shows "fl x \<le> 2 powi (expo x + 1)"
proof -
  have "x < 2 powi (binade x + 1)"
    using assms by (rule binade_bounds)
  also have "\<dots> \<le> 2 powi (expo x + 1)"
    by (intro power_int_increasing) (simp_all add: expo_def)
  finally have "x / ulp x \<le> 2 powi (expo x + 1) / ulp x"
    using ulp_pos[of x] by (simp add: divide_right_mono)
  also have "\<dots> = 2 powi 53"
    by (simp add: ulp_expo pow2_ratio)
  also have "\<dots> = of_int (2 ^ 53)"
    by simp
  finally have "round_half_even (x / ulp x) \<le> round_half_even (of_int (2 ^ 53))"
    by (rule round_half_even_mono)
  then have "round_half_even (x / ulp x) \<le> 2 ^ 53"
    by (simp only: round_half_even_of_int)
  then have "(of_int (round_half_even (x / ulp x)) :: rat) \<le> of_int (2 ^ 53)"
    by (simp only: of_int_le_iff)
  then have "of_int (round_half_even (x / ulp x)) * ulp x \<le> of_int (2 ^ 53) * ulp x"
    using ulp_pos[of x] by (simp only: mult_le_cancel_right_pos)
  also have "of_int (2 ^ 53) * ulp x = 2 ^ 53 * 2 powi ((expo x + 1) - int 53)"
    by (simp add: ulp_expo)
  also have "\<dots> = 2 powi (expo x + 1)"
    by (rule pow2_split)
  finally show ?thesis
    using assms by (simp add: fl_times)
qed

lemma fl_lower:
  assumes "0 < x" "- 1022 \<le> binade x"
  shows "2 powi (binade x) \<le> fl x"
proof -
  from assms(2) have e: "expo x = binade x"
    by (simp add: expo_def)
  have "2 powi (binade x) \<le> x"
    using assms(1) by (rule binade_bounds)
  then have "2 powi (binade x) / ulp x \<le> x / ulp x"
    using ulp_pos[of x] by (simp add: divide_right_mono)
  moreover have "2 powi (binade x) / ulp x = 2 powi 52"
    by (simp add: ulp_expo e pow2_ratio)
  moreover have "(2::rat) powi 52 = of_int (2 ^ 52)"
    by simp
  ultimately have "of_int (2 ^ 52) \<le> x / ulp x"
    by simp
  then have "round_half_even (of_int (2 ^ 52)) \<le> round_half_even (x / ulp x)"
    by (rule round_half_even_mono)
  then have "2 ^ 52 \<le> round_half_even (x / ulp x)"
    by (simp only: round_half_even_of_int)
  then have "(of_int (2 ^ 52) :: rat) \<le> of_int (round_half_even (x / ulp x))"
    by (simp only: of_int_le_iff)
  then have "of_int (2 ^ 52) * ulp x \<le> of_int (round_half_even (x / ulp x)) * ulp x"
    using ulp_pos[of x] by (simp only: mult_le_cancel_right_pos)
  moreover have "of_int (2 ^ 52) * ulp x = 2 ^ 52 * 2 powi (binade x - int 52)"
    by (simp add: ulp_expo e)
  moreover have "(2::rat) ^ 52 * 2 powi (binade x - int 52) = 2 powi (binade x)"
    by (rule pow2_split)
  ultimately show ?thesis
    using assms(1) by (simp add: fl_times)
qed

lemma fl_mono_pos:
  assumes "0 < x" "x \<le> y"
  shows "fl x \<le> fl y"
proof -
  from assms have ypos: "0 < y" by simp
  from assms have "binade x \<le> binade y"
    by (rule binade_mono)
  then have le: "expo x \<le> expo y"
    by (simp add: expo_def)
  show ?thesis
  proof (cases "expo x = expo y")
    case True
    then have u: "ulp y = ulp x"
      by (simp add: ulp_expo)
    from assms(2) have "x / ulp x \<le> y / ulp x"
      using ulp_pos[of x] by (simp add: divide_right_mono)
    then have "round_half_even (x / ulp x) \<le> round_half_even (y / ulp x)"
      by (rule round_half_even_mono)
    then have "(of_int (round_half_even (x / ulp x)) :: rat) \<le> of_int (round_half_even (y / ulp x))"
      by (simp only: of_int_le_iff)
    then have "of_int (round_half_even (x / ulp x)) * ulp x \<le> of_int (round_half_even (y / ulp x)) * ulp x"
      using ulp_pos[of x] by (simp only: mult_le_cancel_right_pos)
    with assms(1) ypos show ?thesis
      by (simp add: fl_times u)
  next
    case False
    with le have less: "expo x + 1 \<le> expo y"
      by simp
    then have "- 1022 < expo y"
      by (simp add: expo_def)
    then have ey: "expo y = binade y" "- 1022 \<le> binade y"
      by (simp_all add: expo_def max_def split: if_splits)
    have "fl x \<le> 2 powi (expo x + 1)"
      using assms(1) by (rule fl_upper)
    also have "\<dots> \<le> 2 powi (binade y)"
      using less ey(1) by (intro power_int_increasing) simp_all
    also have "\<dots> \<le> fl y"
      using ypos ey(2) by (rule fl_lower)
    finally show ?thesis .
  qed
qed

lemma fl_nearest: "\<bar>fl x - x\<bar> \<le> ulp x / 2"
proof (cases "x = 0")
  case True
  then show ?thesis
    using ulp_pos[of x] by (simp add: fl_def)
next
  case False
  let ?n = "round_half_even (x / ulp x)"
  have "\<bar>x / ulp x - of_int ?n\<bar> \<le> 1 / 2"
    by (rule round_half_even_close)
  then have "\<bar>x / ulp x - of_int ?n\<bar> * ulp x \<le> 1 / 2 * ulp x"
    using ulp_pos[of x] by (simp only: mult_le_cancel_right_pos)
  moreover have "(x / ulp x - of_int ?n) * ulp x = x - of_int ?n * ulp x"
    using ulp_pos[of x] by (simp add: left_diff_distrib)
  then have "\<bar>x / ulp x - of_int ?n\<bar> * ulp x = \<bar>x - of_int ?n * ulp x\<bar>"
    using ulp_pos[of x] abs_mult[of "x / ulp x - of_int ?n" "ulp x"] by simp
  ultimately have "\<bar>x - of_int ?n * ulp x\<bar> \<le> ulp x / 2"
    by simp
  with False show ?thesis
    by (simp add: fl_times abs_minus_commute)
qed

lemma fl_zero: "fl 0 = 0"
  by (simp add: fl_def)

lemma fl_nonneg:
  assumes "0 \<le> x"
  shows "0 \<le> fl x"
proof (cases "x = 0")
  case True
  then show ?thesis by (simp add: fl_zero)
next
  case False
  from assms have "0 \<le> x / ulp x"
    using ulp_pos[of x] by simp
  then have "round_half_even (of_int 0) \<le> round_half_even (x / ulp x)"
    by (intro round_half_even_mono) simp
  then have "0 \<le> round_half_even (x / ulp x)"
    by (simp only: round_half_even_of_int)
  then have "0 \<le> (of_int (round_half_even (x / ulp x)) :: rat) * ulp x"
    using ulp_pos[of x] by simp
  with False show ?thesis
    by (simp add: fl_times)
qed

lemma fl_mono:
  assumes "0 \<le> x" "x \<le> y"
  shows "fl x \<le> fl y"
proof (cases "x = 0")
  case True
  with assms show ?thesis
    by (simp add: fl_zero fl_nonneg)
next
  case False
  with assms have "0 < x" by simp
  then show ?thesis
    using assms(2) by (rule fl_mono_pos)
qed

lemma fl_one: "fl 1 = 1"
  by code_simp

lemma fl_hundred: "fl 100 = 100"
  by code_simp

lemma fl_lit_0_7: "fl lit_0_7 = lit_0_7"
  by code_simp

lemma fl_lit_0_3: "fl lit_0_3 = lit_0_3"
  by code_simp

lemma fl_lit_sum: "fl (lit_0_7 + lit_0_3) = 1"
  by code_simp

lemma lit_values:
  "lit_0_7 = 3152519739159347 / 4503599627370496"
  "lit_0_3 = 5404319552844595 / 18014398509481984"
  by code_simp+

lemma lit_nonneg: "0 \<le> lit_0_7" "0 \<le> lit_0_3"
  by code_simp+

subsection \<open>The quality score\<close>

lemma round_half_even_nonneg:
  assumes "0 \<le> x"
  shows "0 \<le> round_half_even x"
proof -
  from assms have "round_half_even (of_int 0) \<le> round_half_even x"
    by (intro round_half_even_mono) simp
  then show ?thesis
    by (simp only: round_half_even_of_int)
qed

lemma round2_mono:
  assumes "0 \<le> x" "x \<le> y"
  shows "round2 x \<le> round2 y"
proof -
  from assms(1) have "0 \<le> round_half_even (x * 100)"
    by (intro round_half_even_nonneg) simp
  moreover from assms(2) have "round_half_even (x * 100) \<le> round_half_even (y * 100)"
    by (intro round_half_even_mono) simp
  ultimately have "0 \<le> (of_int (round_half_even (x * 100)) :: rat) / 100"
    and "(of_int (round_half_even (x * 100)) :: rat) / 100 \<le> of_int (round_half_even (y * 100)) / 100"
    by simp_all
  then show ?thesis
    unfolding round2_def by (rule fl_mono)
qed

lemma round2_nonneg:
  assumes "0 \<le> x"
  shows "0 \<le> round2 x"
proof -
  from assms have "0 \<le> round_half_even (x * 100)"
    by (intro round_half_even_nonneg) simp
  then have "0 \<le> (of_int (round_half_even (x * 100)) :: rat) / 100"
    by simp
  then show ?thesis
    unfolding round2_def by (rule fl_nonneg)
qed

lemma round2_hundred: "round2 100 = 100"
  by code_simp

lemma float_mul_unit:
  assumes "0 \<le> x" "x \<le> 1" "0 \<le> c" "fl c = c"
  shows "0 \<le> float_mul x c" and "float_mul x c \<le> c"
proof -
  from assms have "0 \<le> x * c" "x * c \<le> c"
    by (simp_all add: mult_left_le_one_le)
  then have "0 \<le> fl (x * c)" "fl (x * c) \<le> fl c"
    by (simp_all add: fl_nonneg fl_mono)
  with assms(4) show "0 \<le> float_mul x c" and "float_mul x c \<le> c"
    by (simp_all add: float_mul_def)
qed

lemma ratio_unit:
  assumes "a \<le> b" "b \<noteq> 0"
  shows "0 \<le> fl (of_nat a / of_nat b)" and "fl (of_nat a / of_nat b) \<le> 1"
proof -
  from assms have "0 \<le> (of_nat a :: rat) / of_nat b" "(of_nat a :: rat) / of_nat b \<le> 1"
    by simp_all
  then have "0 \<le> fl (of_nat a / of_nat b)" "fl (of_nat a / of_nat b) \<le> fl 1"
    by (simp_all add: fl_nonneg fl_mono)
  then show "0 \<le> fl (of_nat a / of_nat b)" and "fl (of_nat a / of_nat b) \<le> 1"
    by (simp_all add: fl_one)
qed

lemma blend_unit:
  assumes "p \<le> f" "f \<le> t" "f \<noteq> 0"
  shows "0 \<le> float_add (float_mul (fl (of_nat p / of_nat f)) lit_0_7)
                  (float_mul (fl (of_nat f / of_nat t)) lit_0_3)"
    and "float_add (float_mul (fl (of_nat p / of_nat f)) lit_0_7)
                  (float_mul (fl (of_nat f / of_nat t)) lit_0_3) \<le> 1"
proof -
  let ?a = "float_mul (fl (of_nat p / of_nat f)) lit_0_7"
  let ?b = "float_mul (fl (of_nat f / of_nat t)) lit_0_3"
  from assms have t: "t \<noteq> 0" by simp
  have a: "0 \<le> ?a" "?a \<le> lit_0_7"
    using ratio_unit[OF assms(1,3)] lit_nonneg(1) fl_lit_0_7 by (rule float_mul_unit)+
  have b: "0 \<le> ?b" "?b \<le> lit_0_3"
    using ratio_unit[OF assms(2) t] lit_nonneg(2) fl_lit_0_3 by (rule float_mul_unit)+
  from a b have "0 \<le> ?a + ?b" "?a + ?b \<le> lit_0_7 + lit_0_3"
    by simp_all
  then have "0 \<le> fl (?a + ?b)" "fl (?a + ?b) \<le> fl (lit_0_7 + lit_0_3)"
    by (simp_all add: fl_nonneg fl_mono)
  then show "0 \<le> float_add ?a ?b" and "float_add ?a ?b \<le> 1"
    by (simp_all add: float_add_def fl_lit_sum)
qed

lemma percent_range:
  assumes "0 \<le> x" "x \<le> 1"
  shows "0 \<le> float_mul x 100" and "float_mul x 100 \<le> 100"
  using assms (1,2) _ fl_hundred by (rule float_mul_unit; simp)+

lemma score_formula_range:
  assumes "p \<le> f" "f \<le> t" "f \<noteq> 0"
  shows "0 \<le> score_formula p f t" and "score_formula p f t \<le> 100"
proof -
  let ?h = "float_mul (float_add (float_mul (fl (of_nat p / of_nat f)) lit_0_7)
                  (float_mul (fl (of_nat f / of_nat t)) lit_0_3)) 100"
  have h: "0 \<le> ?h" "?h \<le> 100"
    using blend_unit[OF assms] by (rule percent_range)+
  from h(1) show "0 \<le> score_formula p f t"
    unfolding score_formula_def by (rule round2_nonneg)
  from h have "round2 ?h \<le> round2 100"
    by (rule round2_mono)
  then show "score_formula p f t \<le> 100"
    by (simp add: score_formula_def round2_hundred)
qed

lemma score_formula_decimals:
  assumes "p \<le> f" "f \<le> t" "f \<noteq> 0"
  shows "\<exists>k. 0 \<le> k \<and> k \<le> 10000 \<and> score_formula p f t = fl (of_int k / 100)"
proof -
  let ?h = "float_mul (float_add (float_mul (fl (of_nat p / of_nat f)) lit_0_7)
                  (float_mul (fl (of_nat f / of_nat t)) lit_0_3)) 100"
  have h: "0 \<le> ?h" "?h \<le> 100"
    using blend_unit[OF assms] by (rule percent_range)+
  from h(1) have "0 \<le> round_half_even (?h * 100)"
    by (intro round_half_even_nonneg) simp
  moreover from h(2) have "round_half_even (?h * 100) \<le> round_half_even (of_int 10000)"
    by (intro round_half_even_mono) simp
  then have "round_half_even (?h * 100) \<le> 10000"
    by (simp only: round_half_even_of_int)
  moreover have "score_formula p f t = fl (of_int (round_half_even (?h * 100)) / 100)"
    by (simp add: score_formula_def round2_def)
  ultimately show ?thesis
    by blast
qed

lemma positive_le_feedback: "positive_count s conv \<le> feedback_count s conv"
  by (simp add: positive_count_def feedback_count_def)

lemma quality_score_formula:
  assumes "total_ai s conv \<noteq> 0" "feedback_count s conv \<noteq> 0"
  shows "calculate_quality_score s conv =
     Inr (Some (score_formula (positive_count s conv) (feedback_count s conv) (total_ai s conv)))"
  using assms by (simp add: calculate_quality_score_def int_truediv_def score_formula_def)

lemma quality_score_total: "\<exists>r. calculate_quality_score s conv = Inr r"
  by (simp add: calculate_quality_score_def int_truediv_def)

lemma quality_score_none:
  "calculate_quality_score s conv = Inr None \<longleftrightarrow> total_ai s conv = 0 \<or> feedback_count s conv = 0"
  by (simp add: calculate_quality_score_def int_truediv_def)

lemma feedback_le_ai:
  assumes "distinct (map fb_message (feedbacks s))"
  shows "feedback_count s conv \<le> total_ai s conv"
proof -
  let ?ms = "ai_messages s conv"
  let ?fs = "feedback_on s ?ms"
  from assms have d: "distinct (map fb_message ?fs)"
    by (simp add: feedback_on_def distinct_map_filter)
  have sub: "set (map fb_message ?fs) \<subseteq> set (map msg_id ?ms)"
    by (auto simp: feedback_on_def)
  have "card (set (map fb_message ?fs)) = length (map fb_message ?fs)"
    using d by (rule distinct_card)
  then have "length ?fs = card (set (map fb_message ?fs))"
    by simp
  also have "\<dots> \<le> card (set (map msg_id ?ms))"
    using sub by (intro card_mono) simp_all
  also have "\<dots> \<le> length ?ms"
    using card_length[of "map msg_id ?ms"] by simp
  finally show ?thesis
    by (simp add: feedback_count_def total_ai_def)
qed

subsection \<open>The store invariant\<close>

lemma foldr_max_ge: "x \<in> set ids \<Longrightarrow> x \<le> foldr max ids (0::nat)"
  by (induction ids) auto

lemma new_id_fresh: "new_id ids \<notin> set ids"
proof
  assume "new_id ids \<in> set ids"
  then have "new_id ids \<le> foldr max ids 0"
    by (rule foldr_max_ge)
  then show False
    by (simp add: new_id_def)
qed

lemma Message_create_store:
  assumes "Message_create s cid r tx = Inr (m, s')"
  shows "messages s' = messages s @ [m]" and "feedbacks s' = feedbacks s"
    and "msg_id m \<notin> set (map msg_id (messages s))" and "msg_role m = r" and "msg_text m = tx"
    and "msg_conversation m = cid"
    and "conversations s' = touch_conversation cid (conversations s)"
  using assms new_id_fresh[of "map msg_id (messages s)"]
  by (auto simp: Message_create_def Let_def split: if_splits)

lemma store_ok_extend:
  assumes "store_ok s" "feedbacks s' = feedbacks s" "messages s' = messages s @ ms"
    "distinct (map msg_id (messages s'))"
  shows "store_ok s'"
  using assms unfolding store_ok_def by auto

lemma store_ok_conversations:
  "store_ok (s\<lparr>conversations := cs\<rparr>) = store_ok s"
  unfolding store_ok_def by simp

lemma store_ok_Message_create:
  assumes "store_ok s" "Message_create s cid r tx = Inr (m, s')"
  shows "store_ok s'"
proof -
  note c = Message_create_store[OF assms(2)]
  from assms(1) c(3) have "distinct (map msg_id (messages s'))"
    by (simp add: c(1) store_ok_def)
  with assms(1) c(2) c(1) show ?thesis
    by (rule store_ok_extend)
qed

lemma store_ok_post_message:
  assumes "store_ok s"
  shows "store_ok (snd (MessageListCreateView_post gen s pk t))"
proof (cases "get_conversation s pk")
  case None
  with assms show ?thesis by (simp add: MessageListCreateView_post_def)
next
  case conv: (Some conv)
  show ?thesis
  proof (cases "CreateMessageSerializer t")
    case None
    with conv assms show ?thesis by (simp add: MessageListCreateView_post_def)
  next
    case vt: (Some tx)
    show ?thesis
    proof (cases "Message_create s (conv_id conv) ROLE_USER tx")
      case (Inl e)
      with conv vt assms show ?thesis by (simp add: MessageListCreateView_post_def)
    next
      case (Inr r)
      then obtain um s1 where um: "Message_create s (conv_id conv) ROLE_USER tx = Inr (um, s1)"
        by (cases r) auto
      with assms have ok1: "store_ok s1"
        by (rule store_ok_Message_create)
      show ?thesis
      proof (cases "gen (last_messages s1 (conv_id conv)) (UserText tx)")
        case (Inl e)
        with conv vt um ok1 show ?thesis
          by (cases e) (simp_all add: MessageListCreateView_post_def)
      next
        case reply: (Inr reply)
        show ?thesis
        proof (cases "Message_create s1 (conv_id conv) ROLE_AI reply")
          case (Inl e)
          with conv vt um reply ok1 show ?thesis by (simp add: MessageListCreateView_post_def)
        next
          case (Inr r2)
          then obtain am s2 where am: "Message_create s1 (conv_id conv) ROLE_AI reply = Inr (am, s2)"
            by (cases r2) auto
          with ok1 have "store_ok s2"
            by (rule store_ok_Message_create)
          with conv vt um reply am show ?thesis
            by (simp add: MessageListCreateView_post_def save_title_def store_ok_conversations)
        qed
      qed
    qed
  qed
qed

lemma store_ok_create_conversation:
  "store_ok s \<Longrightarrow> store_ok (snd (ConversationListCreateView_post s t))"
  by (simp add: ConversationListCreateView_post_def Let_def store_ok_conversations
      split: sum.splits)

lemma store_ok_patch_conversation:
  "store_ok s \<Longrightarrow> store_ok (snd (ConversationDetailView_patch s pk t))"
  by (simp add: ConversationDetailView_patch_def save_conversation_def store_ok_conversations
      Let_def split: option.splits sum.splits)

lemma get_message_Some: "get_message s pk = Some m \<Longrightarrow> m \<in> set (messages s) \<and> msg_id m = pk"
  by (auto simp: get_message_def find_Some_iff)

lemma store_ok_create_feedback:
  assumes "store_ok s" "get_message s pk = Some m" "msg_role m = ROLE_AI"
    "filter (\<lambda>f. fb_message f = msg_id m) (feedbacks s) = []"
  shows "store_ok (s\<lparr>feedbacks := \<lparr>fb_id = new_id (map fb_id (feedbacks s)), fb_message = msg_id m,
                    fb_rating = rating, fb_note = nt\<rparr> # feedbacks s\<rparr>)"
proof -
  from assms(4) have "msg_id m \<notin> fb_message ` set (feedbacks s)"
    by (auto simp: filter_empty_conv)
  moreover have "new_id (map fb_id (feedbacks s)) \<notin> fb_id ` set (feedbacks s)"
    using new_id_fresh[of "map fb_id (feedbacks s)"] by simp
  moreover from assms(2) have "m \<in> set (messages s)"
    by (simp add: get_message_Some)
  ultimately show ?thesis
    using assms(1,3) unfolding store_ok_def by auto
qed

lemma save_feedback_keys:
  assumes "f \<in> set (feedbacks s)" "fb_id f' = fb_id f" "fb_message f' = fb_message f"
    "distinct (map fb_id (feedbacks s))"
  shows "map fb_id (feedbacks (save_feedback f' s)) = map fb_id (feedbacks s)"
    and "map fb_message (feedbacks (save_feedback f' s)) = map fb_message (feedbacks s)"
    and "messages (save_feedback f' s) = messages s"
    and "conversations (save_feedback f' s) = conversations s"
proof -
  have same: "g = f" if "g \<in> set (feedbacks s)" "fb_id g = fb_id f" for g
    using that assms(1,4) by (auto simp: distinct_map inj_on_def)
  show "map fb_id (feedbacks (save_feedback f' s)) = map fb_id (feedbacks s)"
    using assms(2) by (simp add: save_feedback_def comp_def)
  show "map fb_message (feedbacks (save_feedback f' s)) = map fb_message (feedbacks s)"
    using assms(2,3) same by (auto simp: save_feedback_def)
  show "messages (save_feedback f' s) = messages s"
    and "conversations (save_feedback f' s) = conversations s"
    by (simp_all add: save_feedback_def)
qed

lemma store_ok_save_feedback:
  assumes "store_ok s" "f \<in> set (feedbacks s)" "fb_id f' = fb_id f" "fb_message f' = fb_message f"
  shows "store_ok (save_feedback f' s)"
proof -
  let ?s' = "save_feedback f' s"
  from assms(1) have d: "distinct (map fb_id (feedbacks s))"
    by (simp add: store_ok_def)
  note k = save_feedback_keys[OF assms(2,3,4) d]
  have att: "\<exists>m \<in> set (messages ?s'). msg_id m = fb_message g \<and> msg_role m = ROLE_AI"
    if "g \<in> set (feedbacks ?s')" for g
  proof -
    from that have "fb_message g \<in> set (map fb_message (feedbacks ?s'))"
      by simp
    then have "fb_message g \<in> set (map fb_message (feedbacks s))"
      by (simp only: k(2))
    then obtain h where "h \<in> set (feedbacks s)" "fb_message h = fb_message g"
      by auto
    with assms(1) show ?thesis
      unfolding store_ok_def k(3) by metis
  qed
  from assms(1) have "distinct (map msg_id (messages ?s'))"
    "distinct (map fb_id (feedbacks ?s'))" "distinct (map fb_message (feedbacks ?s'))"
    unfolding store_ok_def k by simp_all
  with att show ?thesis
    unfolding store_ok_def by blast
qed

lemma filter_singleton_mem:
  assumes "filter P xs = [x]"
  shows "x \<in> set xs \<and> P x"
proof -
  have "x \<in> set (filter P xs)"
    by (simp add: assms)
  then show ?thesis by simp
qed

lemma feedback_post_not_found:
  "get_message s mid = None \<Longrightarrow>
     MessageFeedbackView_post s mid req = (Inr \<lparr>status = 404, content = Detail ''Not found.''\<rparr>, s)"
  by (simp add: MessageFeedbackView_post_def)

lemma feedback_post_not_ai:
  "get_message s mid = Some msg \<Longrightarrow> msg_role msg \<noteq> ROLE_AI \<Longrightarrow>
     MessageFeedbackView_post s mid req =
       (Inr \<lparr>status = 400, content = Detail ''Feedback can only be provided for AI messages.''\<rparr>, s)"
  by (simp add: MessageFeedbackView_post_def)

lemma feedback_post_invalid:
  "get_message s mid = Some msg \<Longrightarrow> msg_role msg = ROLE_AI \<Longrightarrow> CreateFeedbackSerializer req = None \<Longrightarrow>
     MessageFeedbackView_post s mid req = (Inr \<lparr>status = 400, content = ValidationErrors\<rparr>, s)"
  by (simp add: MessageFeedbackView_post_def)

lemma feedback_post_created:
  "get_message s mid = Some msg \<Longrightarrow> msg_role msg = ROLE_AI \<Longrightarrow>
   CreateFeedbackSerializer req = Some (rating, nt) \<Longrightarrow>
   filter (\<lambda>f. fb_message f = msg_id msg) (feedbacks s) = [] \<Longrightarrow>
     MessageFeedbackView_post s mid req =
       (Inr \<lparr>status = 201, content = FeedbackData (new_feedback s (msg_id msg) rating nt)\<rparr>,
        s\<lparr>feedbacks := new_feedback s (msg_id msg) rating nt # feedbacks s\<rparr>)"
  by (simp add: MessageFeedbackView_post_def new_feedback_def Let_def)

lemma feedback_post_updated:
  "get_message s mid = Some msg \<Longrightarrow> msg_role msg = ROLE_AI \<Longrightarrow>
   CreateFeedbackSerializer req = Some (rating, nt) \<Longrightarrow>
   filter (\<lambda>f. fb_message f = msg_id msg) (feedbacks s) = [f] \<Longrightarrow>
     MessageFeedbackView_post s mid req =
       (Inr \<lparr>status = 200, content = FeedbackData (updated_feedback f rating nt)\<rparr>,
        save_feedback (updated_feedback f rating nt) s)"
  by (simp add: MessageFeedbackView_post_def updated_feedback_def Let_def)

lemma feedback_post_multiple:
  "get_message s mid = Some msg \<Longrightarrow> msg_role msg = ROLE_AI \<Longrightarrow>
   CreateFeedbackSerializer req = Some (rating, nt) \<Longrightarrow>
   filter (\<lambda>f. fb_message f = msg_id msg) (feedbacks s) = f # g # gs \<Longrightarrow>
     MessageFeedbackView_post s mid req = (Inl MultipleObjectsReturned, s)"
  by (simp add: MessageFeedbackView_post_def)

lemma store_ok_post_feedback:
  assumes "store_ok s"
  shows "store_ok (snd (MessageFeedbackView_post s mid req))"
proof (cases "get_message s mid")
  case None
  with assms show ?thesis by (simp add: feedback_post_not_found)
next
  case msg: (Some msg)
  show ?thesis
  proof (cases "msg_role msg = ROLE_AI")
    case False
    with msg assms show ?thesis by (simp add: feedback_post_not_ai)
  next
    case ai: True
    show ?thesis
    proof (cases "CreateFeedbackSerializer req")
      case None
      with msg ai assms show ?thesis by (simp add: feedback_post_invalid)
    next
      case (Some v)
      then obtain rating nt where v: "CreateFeedbackSerializer req = Some (rating, nt)"
        by (cases v) auto
      show ?thesis
      proof (cases "filter (\<lambda>f. fb_message f = msg_id msg) (feedbacks s)")
        case Nil
        from assms msg ai Nil
        have "store_ok (s\<lparr>feedbacks := \<lparr>fb_id = new_id (map fb_id (feedbacks s)), fb_message = msg_id msg,
                    fb_rating = rating, fb_note = Some (or_empty nt)\<rparr> # feedbacks s\<rparr>)"
          by (rule store_ok_create_feedback)
        then show ?thesis
          unfolding feedback_post_created[OF msg ai v Nil] new_feedback_def by simp
      next
        case (Cons f fs)
        show ?thesis
        proof (cases fs)
          case Nil
          with Cons have one: "filter (\<lambda>f. fb_message f = msg_id msg) (feedbacks s) = [f]"
            by simp
          then have "f \<in> set (feedbacks s)"
            by (rule filter_singleton_mem[THEN conjunct1])
          with assms have "store_ok (save_feedback (updated_feedback f rating nt) s)"
            by (rule store_ok_save_feedback) (simp_all add: updated_feedback_def)
          then show ?thesis
            unfolding feedback_post_updated[OF msg ai v one] by simp
        next
          case (Cons g gs)
          with \<open>filter (\<lambda>f. fb_message f = msg_id msg) (feedbacks s) = f # fs\<close>
          have many: "filter (\<lambda>f. fb_message f = msg_id msg) (feedbacks s) = f # g # gs"
            by simp
          from assms show ?thesis
            unfolding feedback_post_multiple[OF msg ai v many] by simp
        qed
      qed
    qed
  qed
qed

lemma reachable_store_ok: "reachable s \<Longrightarrow> store_ok s"
proof (induction rule: reachable.induct)
  case (start s)
  then show ?case by (simp add: store_ok_def)
next
  case (create_conversation s t)
  then show ?case by (simp add: store_ok_create_conversation)
next
  case (patch_conversation s pk t)
  then show ?case by (simp add: store_ok_patch_conversation)
next
  case (post_message s gen pk t)
  then show ?case by (simp add: store_ok_post_message)
next
  case (post_feedback s mid req)
  then show ?case by (simp add: store_ok_post_feedback)
qed

subsection \<open>Feedback submission\<close>

lemma get_message_unique:
  assumes "distinct (map msg_id (messages s))" "m \<in> set (messages s)"
  shows "get_message s (msg_id m) = Some m"
proof -
  have "find (\<lambda>x. msg_id x = msg_id m) ms = Some m" if "distinct (map msg_id ms)" "m \<in> set ms" for ms
    using that by (induction ms) force+
  with assms show ?thesis
    by (simp add: get_message_def)
qed

lemma filter_message_unique:
  assumes "distinct (map fb_message fs)" "f \<in> set fs"
  shows "filter (\<lambda>g. fb_message g = fb_message f) fs = [f]"
  using assms
proof (induction fs)
  case Nil
  then show ?case by simp
next
  case (Cons g fs)
  show ?case
  proof (cases "g = f")
    case True
    with Cons.prems(1) have "fb_message f \<notin> fb_message ` set fs"
      by simp
    then have "filter (\<lambda>g. fb_message g = fb_message f) fs = []"
      unfolding filter_empty_conv by (metis imageI)
    with True show ?thesis by simp
  next
    case False
    with Cons.prems have "f \<in> set fs" "fb_message g \<noteq> fb_message f"
      by auto
    with Cons show ?thesis by simp
  qed
qed

lemma feedback_message_exists:
  assumes "store_ok s" "f \<in> set (feedbacks s)"
  shows "\<exists>m. get_message s (fb_message f) = Some m \<and> msg_role m = ROLE_AI"
proof -
  from assms obtain m where m: "m \<in> set (messages s)" "msg_id m = fb_message f" "msg_role m = ROLE_AI"
    unfolding store_ok_def by blast
  from assms(1) have "distinct (map msg_id (messages s))"
    by (simp add: store_ok_def)
  then have "get_message s (msg_id m) = Some m"
    using m(1) by (rule get_message_unique)
  with m show ?thesis by auto
qed

lemma feedback_post_existing:
  assumes "store_ok s" "f \<in> set (feedbacks s)" "CreateFeedbackSerializer req = Some (rating, nt)"
  shows "MessageFeedbackView_post s (fb_message f) req =
       (Inr \<lparr>status = 200, content = FeedbackData (updated_feedback f rating nt)\<rparr>,
        save_feedback (updated_feedback f rating nt) s)"
proof -
  from assms(1,2) obtain m where m: "get_message s (fb_message f) = Some m" "msg_role m = ROLE_AI"
    using feedback_message_exists by blast
  from m(1) have id: "msg_id m = fb_message f"
    by (simp add: get_message_Some)
  from assms(1) have "distinct (map fb_message (feedbacks s))"
    by (simp add: store_ok_def)
  then have "filter (\<lambda>g. fb_message g = fb_message f) (feedbacks s) = [f]"
    using assms(2) by (rule filter_message_unique)
  then have "filter (\<lambda>g. fb_message g = msg_id m) (feedbacks s) = [f]"
    by (simp only: id)
  with m assms(3) show ?thesis
    by (rule feedback_post_updated)
qed

lemma updated_feedback_keys:
  "fb_id (updated_feedback f rating nt) = fb_id f"
  "fb_message (updated_feedback f rating nt) = fb_message f"
  "fb_rating (updated_feedback f rating nt) = rating"
  "fb_note (updated_feedback f rating nt) = (case nt of None \<Rightarrow> fb_note f | Some t \<Rightarrow> Some t)"
  by (simp_all add: updated_feedback_def or_empty_def split: option.splits)

lemma updated_feedback_idem:
  "updated_feedback (updated_feedback f rating nt) rating nt = updated_feedback f rating nt"
  by (simp add: updated_feedback_def)

lemma updated_new_feedback:
  "updated_feedback (new_feedback s mid rating nt) rating nt = new_feedback s mid rating nt"
  by (simp add: updated_feedback_def new_feedback_def)

lemma save_feedback_in:
  assumes "f \<in> set (feedbacks s)" "fb_id f' = fb_id f"
  shows "f' \<in> set (feedbacks (save_feedback f' s))"
  using assms by (force simp: save_feedback_def)

lemma save_feedback_same:
  assumes "distinct (map fb_id (feedbacks s))" "f \<in> set (feedbacks s)"
  shows "save_feedback f s = s"
proof -
  have "g = f" if "g \<in> set (feedbacks s)" "fb_id g = fb_id f" for g
    using that assms by (auto simp: distinct_map inj_on_def)
  then have "map (\<lambda>g. if fb_id g = fb_id f then f else g) (feedbacks s) = feedbacks s"
    by (intro map_idI) auto
  then show ?thesis
    by (simp add: save_feedback_def)
qed

lemma feedback_post_unchanged_or_ok:
  assumes "store_ok s"
  shows "snd (MessageFeedbackView_post s mid req) = s \<or>
         (\<exists>f rating nt. f \<in> set (feedbacks (snd (MessageFeedbackView_post s mid req))) \<and>
            fb_message f = mid \<and> CreateFeedbackSerializer req = Some (rating, nt) \<and>
            updated_feedback f rating nt = f)"
proof (cases "get_message s mid")
  case None
  then show ?thesis by (simp add: feedback_post_not_found)
next
  case msg: (Some msg)
  then have id: "msg_id msg = mid"
    by (simp add: get_message_Some)
  show ?thesis
  proof (cases "msg_role msg = ROLE_AI")
    case False
    with msg show ?thesis by (simp add: feedback_post_not_ai)
  next
    case ai: True
    show ?thesis
    proof (cases "CreateFeedbackSerializer req")
      case None
      with msg ai show ?thesis by (simp add: feedback_post_invalid)
    next
      case (Some v)
      then obtain rating nt where v: "CreateFeedbackSerializer req = Some (rating, nt)"
        by (cases v) auto
      show ?thesis
      proof (cases "filter (\<lambda>f. fb_message f = msg_id msg) (feedbacks s)")
        case Nil
        let ?f = "new_feedback s (msg_id msg) rating nt"
        have "?f \<in> set (feedbacks (snd (MessageFeedbackView_post s mid req)))"
          unfolding feedback_post_created[OF msg ai v Nil] by simp
        moreover have "fb_message ?f = mid"
          by (simp add: new_feedback_def id)
        moreover have "updated_feedback ?f rating nt = ?f"
          by (rule updated_new_feedback)
        ultimately show ?thesis
          using v by blast
      next
        case (Cons f fs)
        show ?thesis
        proof (cases fs)
          case Nil
          with Cons have one: "filter (\<lambda>f. fb_message f = msg_id msg) (feedbacks s) = [f]"
            by simp
          then have f: "f \<in> set (feedbacks s)" "fb_message f = msg_id msg"
            by (auto dest: filter_singleton_mem)
          let ?f = "updated_feedback f rating nt"
          have "?f \<in> set (feedbacks (snd (MessageFeedbackView_post s mid req)))"
            unfolding feedback_post_updated[OF msg ai v one]
            using f(1) by (simp add: save_feedback_in updated_feedback_keys)
          moreover have "fb_message ?f = mid"
            using f(2) id by (simp add: updated_feedback_keys)
          moreover have "updated_feedback ?f rating nt = ?f"
            by (rule updated_feedback_idem)
          ultimately show ?thesis
            using v by blast
        next
          case (Cons g gs)
          with \<open>filter (\<lambda>f. fb_message f = msg_id msg) (feedbacks s) = f # fs\<close>
          have many: "filter (\<lambda>f. fb_message f = msg_id msg) (feedbacks s) = f # g # gs"
            by simp
          show ?thesis
            unfolding feedback_post_multiple[OF msg ai v many] by simp
        qed
      qed
    qed
  qed
qed

lemma feedback_post_twice:
  assumes "store_ok s"
  shows "snd (MessageFeedbackView_post (snd (MessageFeedbackView_post s mid req)) mid req)
           = snd (MessageFeedbackView_post s mid req)"
proof -
  let ?s1 = "snd (MessageFeedbackView_post s mid req)"
  from assms have ok1: "store_ok ?s1"
    by (rule store_ok_post_feedback)
  from feedback_post_unchanged_or_ok[OF assms, of mid req]
  show ?thesis
  proof
    assume "?s1 = s"
    then show ?thesis by simp
  next
    assume "\<exists>f rating nt. f \<in> set (feedbacks ?s1) \<and> fb_message f = mid \<and>
       CreateFeedbackSerializer req = Some (rating, nt) \<and> updated_feedback f rating nt = f"
    then obtain f rating nt where f: "f \<in> set (feedbacks ?s1)" "fb_message f = mid"
      "CreateFeedbackSerializer req = Some (rating, nt)" "updated_feedback f rating nt = f"
      by blast
    from ok1 f(1,3) have "MessageFeedbackView_post ?s1 (fb_message f) req =
       (Inr \<lparr>status = 200, content = FeedbackData (updated_feedback f rating nt)\<rparr>,
        save_feedback (updated_feedback f rating nt) ?s1)"
      by (rule feedback_post_existing)
    then have "snd (MessageFeedbackView_post ?s1 mid req) = save_feedback f ?s1"
      by (simp add: f(2,4))
    also have "\<dots> = ?s1"
      using ok1 f(1) by (intro save_feedback_same) (simp add: store_ok_def)
    finally show ?thesis .
  qed
qed

subsection \<open>The insights report\<close>

lemma reachable_feedback_le_ai:
  assumes "reachable s"
  shows "feedback_count s conv \<le> total_ai s conv"
proof -
  from assms have "store_ok s"
    by (rule reachable_store_ok)
  then have "distinct (map fb_message (feedbacks s))"
    by (simp add: store_ok_def)
  then show ?thesis
    by (rule feedback_le_ai)
qed

lemma round2_zero: "round2 0 = 0"
  by (simp add: round2_def round_half_even_def fl_def)

lemma rate_formula_round2:
  "round2 (if b = 0 then 0 else float_mul (fl (of_nat a / of_nat b)) 100) = rate_formula a b"
  by (simp add: rate_formula_def round2_zero)

lemma percentage_value:
  "percentage a b = Inr (if b = 0 then 0 else float_mul (fl (of_nat a / of_nat b)) 100)"
  by (simp add: percentage_def int_truediv_def)

lemma conversations_with_scores_total: "\<exists>es. conversations_with_scores s cs = Inr es"
proof (induction cs)
  case Nil
  show ?case by simp
next
  case (Cons c cs)
  obtain r where "calculate_quality_score s c = Inr r"
    using quality_score_total by blast
  moreover from Cons obtain es where "conversations_with_scores s cs = Inr es"
    by blast
  ultimately show ?case by simp
qed

lemma avg_quality_score_total: "\<exists>a. avg_quality_score xs = Inr a"
  by (cases xs) (simp_all add: avg_quality_score_def float_div_def)

lemma generate_reply_classified: "classified (generate_reply env)"
  by (auto simp: classified_def generate_reply_def Let_def split: option.splits sum.splits if_splits)

lemma gather_statistics_fields:
  "\<exists>r p. gather_statistics s = Inr (r, p) \<and> summary r = None \<and>
     usage r = \<lparr>total_conversations = length (conversations s),
               total_messages = length (messages s),
               total_user_messages = length (filter (\<lambda>m. msg_role m = ROLE_USER) (messages s)),
               total_ai_messages = length (filter (\<lambda>m. msg_role m = ROLE_AI) (messages s))\<rparr> \<and>
     total_feedback (feedback_stats r) = length (feedbacks s) \<and>
     positive_feedback (feedback_stats r) = length (filter fb_rating (feedbacks s)) \<and>
     negative_feedback (feedback_stats r) = length (filter (\<lambda>f. \<not> fb_rating f) (feedbacks s)) \<and>
     satisfaction_rate (feedback_stats r) =
       rate_formula (length (filter fb_rating (feedbacks s))) (length (feedbacks s)) \<and>
     feedback_rate (feedback_stats r) =
       rate_formula (length (feedbacks s))
         (length (filter (\<lambda>m. msg_role m = ROLE_AI) (messages s))) \<and>
     themes r = extract_feedback_themes (feedback_notes s) 10 \<and>
     (\<exists>convs. conversations_with_scores s (conversations s) = Inr convs \<and>
        avg_quality_score (defined_scores convs) = Inr (average (quality_scores r)))"
proof -
  obtain convs where convs: "conversations_with_scores s (conversations s) = Inr convs"
    using conversations_with_scores_total by blast
  obtain avg where avg: "avg_quality_score (defined_scores convs) = Inr avg"
    using avg_quality_score_total by blast
  show ?thesis
    by (simp add: gather_statistics_def Let_def percentage_value convs avg rate_formula_round2
        del: of_nat_eq_0_iff)
qed

lemma InsightsView_get_off:
  assumes "gather_statistics s = Inr (r, p)" "\<not> include_summary_param q"
  shows "InsightsView_get gen s q = (Inr \<lparr>status = 200, content = InsightsData r\<rparr>, [])"
  using assms by (simp add: InsightsView_get_def)

lemma InsightsView_get_reply:
  assumes "gather_statistics s = Inr (r, p)" "include_summary_param q" "gen [] p = Inr text"
  shows "InsightsView_get gen s q =
    (Inr \<lparr>status = 200, content = InsightsData (r\<lparr>summary := Some text\<rparr>)\<rparr>, [([], p)])"
  using assms by (simp add: InsightsView_get_def)

lemma InsightsView_get_failure:
  assumes "gather_statistics s = Inr (r, p)" "include_summary_param q"
    "gen [] p = Inl (GeminiServiceError e)"
  shows "InsightsView_get gen s q =
    (Inr \<lparr>status = 200, content = InsightsData (r\<lparr>summary := None\<rparr>)\<rparr>, [([], p)])"
  using assms by (simp add: InsightsView_get_def)

lemma InsightsView_get_calls:
  assumes "gather_statistics s = Inr (r, p)"
  shows "snd (InsightsView_get gen s q) = (if include_summary_param q then [([], p)] else [])"
  using assms by (simp add: InsightsView_get_def split: sum.splits py_error.splits)

subsection \<open>Message posting\<close>

lemma find_filter_append:
  "find P (filter P xs @ ys) = (case find P xs of Some y \<Rightarrow> Some y | None \<Rightarrow> find P ys)"
  by (induction xs) auto

lemma find_filter_not: "find P (filter (\<lambda>x. \<not> P x) xs) = None"
  by (induction xs) auto

lemma find_touch:
  "find (\<lambda>c. conv_id c = pk) (touch_conversation pk cs) = find (\<lambda>c. conv_id c = pk) cs"
  unfolding touch_conversation_def find_filter_append
  by (simp add: find_filter_not split: option.splits)

lemma find_map_title:
  "find (\<lambda>c. conv_id c = pk) (map (\<lambda>c. if conv_id c = pk then c\<lparr>conv_title := t\<rparr> else c) cs)
     = map_option (\<lambda>c. c\<lparr>conv_title := t\<rparr>) (find (\<lambda>c. conv_id c = pk) cs)"
  by (induction cs) auto

lemma get_conversation_id: "get_conversation s pk = Some conv \<Longrightarrow> conv_id conv = pk"
  by (auto simp: get_conversation_def find_Some_iff)

lemma get_conversation_Message_create:
  assumes "Message_create s pk r tx = Inr (m, s')"
  shows "get_conversation s' pk = get_conversation s pk"
  using Message_create_store(7)[OF assms] by (simp add: get_conversation_def find_touch)

lemma get_conversation_save_title:
  "get_conversation (save_title pk t s) pk
     = map_option (\<lambda>c. c\<lparr>conv_title := Some t\<rparr>) (get_conversation s pk)"
  by (simp add: get_conversation_def save_title_def find_map_title)

lemma user_message_count_save_title:
  "user_message_count (save_title pk t s) cid = user_message_count s cid"
  by (simp add: user_message_count_def save_title_def conversation_messages_def)

lemma message_post_created:
  assumes "MessageListCreateView_post gen s pk tf =
      (Inr \<lparr>status = 201, content = MessagePair um am\<rparr>, s')"
  shows "\<exists>conv tx s1 reply s2.
      get_conversation s pk = Some conv \<and> CreateMessageSerializer tf = Some tx \<and>
      Message_create s pk ROLE_USER tx = Inr (um, s1) \<and>
      gen (last_messages s1 pk) (UserText tx) = Inr reply \<and>
      Message_create s1 pk ROLE_AI reply = Inr (am, s2) \<and>
      s' = (if untitled conv \<and> user_message_count s2 pk = 1
            then save_title pk (auto_title tx) s2 else s2)"
proof (cases "get_conversation s pk")
  case None
  with assms show ?thesis by (simp add: MessageListCreateView_post_def)
next
  case conv: (Some conv)
  then have id: "conv_id conv = pk"
    by (rule get_conversation_id)
  show ?thesis
  proof (cases "CreateMessageSerializer tf")
    case None
    with conv assms show ?thesis by (simp add: MessageListCreateView_post_def)
  next
    case vt: (Some tx)
    show ?thesis
    proof (cases "Message_create s pk ROLE_USER tx")
      case (Inl e)
      with conv vt id assms show ?thesis by (simp add: MessageListCreateView_post_def)
    next
      case (Inr r)
      then obtain um' s1 where um: "Message_create s pk ROLE_USER tx = Inr (um', s1)"
        by (cases r) auto
      show ?thesis
      proof (cases "gen (last_messages s1 pk) (UserText tx)")
        case (Inl e)
        with conv vt um id assms show ?thesis
          by (cases e) (simp_all add: MessageListCreateView_post_def)
      next
        case reply: (Inr reply)
        show ?thesis
        proof (cases "Message_create s1 pk ROLE_AI reply")
          case (Inl e)
          with conv vt um reply id assms show ?thesis by (simp add: MessageListCreateView_post_def)
        next
          case (Inr r2)
          then obtain am' s2 where am: "Message_create s1 pk ROLE_AI reply = Inr (am', s2)"
            by (cases r2) auto
          from conv vt um reply am id
          have "MessageListCreateView_post gen s pk tf =
             (Inr \<lparr>status = 201, content = MessagePair um' am'\<rparr>,
              if untitled conv \<and> user_message_count s2 pk = 1
              then save_title pk (auto_title tx) s2 else s2)"
            by (simp add: MessageListCreateView_post_def untitled_def)
          with assms have "um' = um" "am' = am"
            and "s' = (if untitled conv \<and> user_message_count s2 pk = 1
              then save_title pk (auto_title tx) s2 else s2)"
            by simp_all
          with conv vt um reply am show ?thesis
            by blast
        qed
      qed
    qed
  qed
qed

lemma message_post_titled:
  assumes "get_conversation s pk = Some conv" "\<not> untitled conv"
  shows "get_conversation (snd (MessageListCreateView_post gen s pk tf)) pk = Some conv"
proof -
  from assms(1) have id: "conv_id conv = pk"
    by (rule get_conversation_id)
  show ?thesis
  proof (cases "CreateMessageSerializer tf")
    case None
    with assms show ?thesis by (simp add: MessageListCreateView_post_def)
  next
    case vt: (Some tx)
    show ?thesis
    proof (cases "Message_create s pk ROLE_USER tx")
      case (Inl e)
      with assms vt id show ?thesis by (simp add: MessageListCreateView_post_def)
    next
      case (Inr r)
      then obtain um s1 where um: "Message_create s pk ROLE_USER tx = Inr (um, s1)"
        by (cases r) auto
      then have c1: "get_conversation s1 pk = Some conv"
        using assms(1) by (simp add: get_conversation_Message_create)
      show ?thesis
      proof (cases "gen (last_messages s1 pk) (UserText tx)")
        case (Inl e)
        with assms(1) vt um id c1 show ?thesis
          by (cases e) (simp_all add: MessageListCreateView_post_def)
      next
        case reply: (Inr reply)
        show ?thesis
        proof (cases "Message_create s1 pk ROLE_AI reply")
          case (Inl e)
          with assms(1) vt um reply id c1 show ?thesis by (simp add: MessageListCreateView_post_def)
        next
          case (Inr r2)
          then obtain am s2 where am: "Message_create s1 pk ROLE_AI reply = Inr (am, s2)"
            by (cases r2) auto
          then have "get_conversation s2 pk = Some conv"
            using c1 by (simp add: get_conversation_Message_create)
          with assms vt um reply am id show ?thesis
            by (auto simp: MessageListCreateView_post_def untitled_def)
        qed
      qed
    qed
  qed
qed

lemma message_post_auto_title:
  assumes "MessageListCreateView_post gen s pk tf =
      (Inr \<lparr>status = 201, content = MessagePair um am\<rparr>, s')"
    and "get_conversation s pk = Some conv" "untitled conv" "user_message_count s' pk = 1"
  shows "get_conversation s' pk = Some (conv\<lparr>conv_title := Some (auto_title (msg_text um))\<rparr>)"
    and "CreateMessageSerializer tf = Some (msg_text um)"
proof -
  from message_post_created[OF assms(1)] assms(2)
  obtain tx s1 reply s2 where vt: "CreateMessageSerializer tf = Some tx"
    and um: "Message_create s pk ROLE_USER tx = Inr (um, s1)"
    and am: "Message_create s1 pk ROLE_AI reply = Inr (am, s2)"
    and s': "s' = (if untitled conv \<and> user_message_count s2 pk = 1
            then save_title pk (auto_title tx) s2 else s2)"
    by auto
  from um have tx: "msg_text um = tx"
    by (rule Message_create_store)
  from s' have "user_message_count s' pk = user_message_count s2 pk"
    by (simp add: user_message_count_save_title)
  with assms(3,4) s' have s'': "s' = save_title pk (auto_title tx) s2"
    by simp
  from um am assms(2) have "get_conversation s2 pk = Some conv"
    by (simp add: get_conversation_Message_create)
  then show "get_conversation s' pk = Some (conv\<lparr>conv_title := Some (auto_title (msg_text um))\<rparr>)"
    by (simp add: s'' get_conversation_save_title tx)
  from vt tx show "CreateMessageSerializer tf = Some (msg_text um)"
    by simp
qed

subsection \<open>Responses of the insights view and the example stores\<close>

lemma insights_response:
  assumes "fst (InsightsView_get gen s q) = Inr \<lparr>status = st, content = InsightsData r\<rparr>"
  shows "\<exists>r0 p t. gather_statistics s = Inr (r0, p) \<and> r = r0\<lparr>summary := t\<rparr>"
proof -
  obtain r0 p where g: "gather_statistics s = Inr (r0, p)"
    using gather_statistics_fields by blast
  have "\<exists>t. r = r0\<lparr>summary := t\<rparr>"
  proof (cases "include_summary_param q")
    case False
    with g assms have "r = r0"
      by (simp add: InsightsView_get_off)
    then have "r = r0\<lparr>summary := summary r0\<rparr>"
      by simp
    then show ?thesis ..
  next
    case True
    show ?thesis
    proof (cases "gen [] p")
      case (Inr reply)
      with g True assms have "r = r0\<lparr>summary := Some reply\<rparr>"
        by (simp add: InsightsView_get_reply)
      then show ?thesis ..
    next
      case (Inl e)
      with g True assms have "r = r0\<lparr>summary := None\<rparr>"
        by (cases e) (simp_all add: InsightsView_get_def)
      then show ?thesis ..
    qed
  qed
  with g show ?thesis by blast
qed

lemma include_summary_false: "\<not> include_summary_param (Some ''false'')"
  by code_simp

lemma reachable_answered: "reachable answered_store"
  by (rule reachable.start) (simp_all add: answered_store_def)

lemma reachable_rated: "reachable rated_store"
proof -
  let ?s1 = "snd (MessageFeedbackView_post answered_store 1 (thumbs_up ''Clear and clear''))"
  let ?s2 = "snd (MessageFeedbackView_post ?s1 2 (thumbs_up []))"
  let ?s3 = "snd (MessageFeedbackView_post ?s2 3 thumbs_down)"
  have "rated_store = ?s3"
    by code_simp
  moreover have "reachable ?s3"
    by (intro reachable.post_feedback reachable_answered)
  ultimately show ?thesis
    by simp
qed

section \<open>The claims\<close>

subsection \<open>Quality score\<close>

text \<open>
  Claim C1. For a conversation with at least one AI message and at least one feedback
  record on its AI messages, the quality score is the value of
  \<^verbatim>\<open>round((positive / feedback * 0.7 + feedback / totalAI * 0.3) * 100, 2)\<close>; and when
  the feedback count does not exceed the number of AI messages, the score lies
  between 0 and 100 and has two decimal places: it is the binary64 value of
  \<open>k / 100\<close> for a whole number \<open>k\<close> from 0 to 10000. (In every reachable store
  the feedback count does not exceed the number of AI messages:
  \<open>reachable_feedback_le_ai\<close>.)
\<close>

theorem quality_score_formula_and_range:
  assumes "total_ai s conv \<noteq> 0" and "feedback_count s conv \<noteq> 0"
  shows "calculate_quality_score s conv =
           Inr (Some (score_formula (positive_count s conv) (feedback_count s conv) (total_ai s conv)))
       \<and> (feedback_count s conv \<le> total_ai s conv \<longrightarrow>
            0 \<le> score_formula (positive_count s conv) (feedback_count s conv) (total_ai s conv)
          \<and> score_formula (positive_count s conv) (feedback_count s conv) (total_ai s conv) \<le> 100
          \<and> (\<exists>k. 0 \<le> k \<and> k \<le> 10000 \<and>
                score_formula (positive_count s conv) (feedback_count s conv) (total_ai s conv)
                  = fl (of_int k / 100)))"
proof (intro conjI impI)
  show "calculate_quality_score s conv =
      Inr (Some (score_formula (positive_count s conv) (feedback_count s conv) (total_ai s conv)))"
    using assms by (rule quality_score_formula)
next
  assume le: "feedback_count s conv \<le> total_ai s conv"
  note range = score_formula_range[OF positive_le_feedback le assms(2)]
  show "0 \<le> score_formula (positive_count s conv) (feedback_count s conv) (total_ai s conv)"
    by (rule range(1))
  show "score_formula (positive_count s conv) (feedback_count s conv) (total_ai s conv) \<le> 100"
    by (rule range(2))
  show "\<exists>k. 0 \<le> k \<and> k \<le> 10000 \<and>
      score_formula (positive_count s conv) (feedback_count s conv) (total_ai s conv)
        = fl (of_int k / 100)"
    using positive_le_feedback le assms(2) by (rule score_formula_decimals)
qed

theorem quality_score_formula_and_range_witness:
  "total_ai rated_store chat \<noteq> 0 \<and> feedback_count rated_store chat \<noteq> 0 \<and>
   feedback_count rated_store chat \<le> total_ai rated_store chat \<and>
   calculate_quality_score rated_store chat = Inr (Some (fl (7667 / 100))) \<and>
   0 \<le> fl (7667 / 100) \<and> fl (7667 / 100) \<le> 100"
proof -
  have ai: "total_ai rated_store chat \<noteq> 0"
    by code_simp
  have fb: "feedback_count rated_store chat \<noteq> 0"
    by code_simp
  have le: "feedback_count rated_store chat \<le> total_ai rated_store chat"
    by code_simp
  have v: "score_formula (positive_count rated_store chat) (feedback_count rated_store chat)
      (total_ai rated_store chat) = fl (7667 / 100)"
    by code_simp
  from quality_score_formula_and_range[OF ai fb] ai fb le show ?thesis
    unfolding v by blast
qed

text \<open>
  Claim C2. The quality score is undefined (\<open>None\<close>) exactly when the conversation has
  no AI message or no feedback on its AI messages; the function always returns a
  value and never raises, so in particular it never divides by zero.
\<close>

theorem quality_score_undefined_iff:
  "(\<exists>r. calculate_quality_score s conv = Inr r) \<and>
   (calculate_quality_score s conv = Inr None \<longleftrightarrow>
      total_ai s conv = 0 \<or> feedback_count s conv = 0)"
  using quality_score_total[of s conv] quality_score_none[of s conv] by simp

theorem quality_score_undefined_iff_witness:
  "total_ai asked_store chat = 0 \<and> calculate_quality_score asked_store chat = Inr None \<and>
   feedback_count answered_store chat = 0 \<and> calculate_quality_score answered_store chat = Inr None \<and>
   calculate_quality_score rated_store chat \<noteq> Inr None"
proof -
  have "total_ai asked_store chat = 0" "feedback_count answered_store chat = 0"
    "total_ai rated_store chat \<noteq> 0" "feedback_count rated_store chat \<noteq> 0"
    by code_simp+
  with quality_score_undefined_iff[of asked_store chat]
    quality_score_undefined_iff[of answered_store chat]
    quality_score_undefined_iff[of rated_store chat]
  show ?thesis by simp
qed

subsection \<open>Theme extraction\<close>

text \<open>
  Claim C3, as stated: the candidate words of a note are exactly the maximal runs of
  the letters \<^verbatim>\<open>a-z\<close> of the lower-cased note, every other character being a
  separator, so that a letter run next to a digit is still a candidate. This fails:
  in \<^verbatim>\<open>abc1\<close> the letter run \<^verbatim>\<open>abc\<close> is followed by a digit, there is no word
  boundary between them, and the regex finds nothing.
\<close>

theorem letter_run_before_digit_is_dropped:
  "ascii ''abc1'' \<and> letter_runs (lower ''abc1'') = [''abc''] \<and> findall_words (lower ''abc1'') = []"
  by code_simp

text \<open>
  Claim C3, amended. For every ASCII note the candidate words are exactly the maximal
  runs of word characters (letters, digits and the underscore) of the lower-cased
  note that consist of the letters \<^verbatim>\<open>a-z\<close> only. Characters other than letters,
  digits and the underscore separate words; a letter run that touches a digit or an
  underscore yields no candidate.
\<close>

theorem candidate_words_are_letter_only_word_runs:
  assumes "ascii note_text"
  shows "findall_words (lower note_text)
           = filter (list_all is_az) (runs is_word_char (lower note_text))"
proof -
  have "\<not> inside_word None"
    by (simp add: inside_word_def)
  then have "findall_from None (lower note_text) = word_tokens (lower note_text)"
    by (simp add: findall_from_tokens)
  then show ?thesis
    by (simp add: findall_words_def word_tokens_def)
qed

theorem candidate_words_are_letter_only_word_runs_witness:
  "ascii ''Great answer, v2 was_ok but slow'' \<and>
   findall_words (lower ''Great answer, v2 was_ok but slow'') = [''great'', ''answer'', ''but'', ''slow'']"
proof -
  have a: "ascii ''Great answer, v2 was_ok but slow''"
    by code_simp
  have "filter (list_all is_az) (runs is_word_char (lower ''Great answer, v2 was_ok but slow''))
      = [''great'', ''answer'', ''but'', ''slow'']"
    by code_simp
  with candidate_words_are_letter_only_word_runs[OF a] a show ?thesis
    by simp
qed

text \<open>
  Claim C4, as stated, bounds the length of the output by \<open>topN\<close> for every \<open>topN\<close>.
  For a negative \<open>topN\<close> the output is empty, and its length 0 exceeds \<open>topN\<close>.
\<close>

theorem negative_top_n_is_exceeded:
  "extract_feedback_themes [Some ''python rocks''] (- 1) = [] \<and>
   \<not> int (length (extract_feedback_themes [Some ''python rocks''] (- 1))) \<le> - 1"
  by (simp add: extract_feedback_themes_def most_common_def)

text \<open>
  Claim C4, amended. For every collection of notes and every \<open>topN\<close>: no stop word
  and no word of length 3 or less appears in the output; the output has one entry
  per word, and (for ASCII notes) the count of an entry is the number of tokens, of
  whatever case, in all notes whose lower-case form is that word; the output has at
  most \<open>max(topN, 0)\<close> entries; and empty input, or input of which no word survives
  the filter, yields an empty output.
\<close>

theorem themes_filtered_merged_bounded:
  "(\<forall>t \<in> set (extract_feedback_themes ns top_n).
       word t \<notin> set STOP_WORDS \<and> 3 < length (word t))
   \<and> distinct (map word (extract_feedback_themes ns top_n))
   \<and> (ascii_notes ns \<longrightarrow>
        (\<forall>t \<in> set (extract_feedback_themes ns top_n).
           count t = length (filter (\<lambda>v. lower v = word t) (all_tokens ns))))
   \<and> length (extract_feedback_themes ns top_n) \<le> nat top_n
   \<and> (surviving_words ns = [] \<longrightarrow> extract_feedback_themes ns top_n = [])
   \<and> extract_feedback_themes [] top_n = []"
proof (intro conjI impI ballI)
  fix t assume t: "t \<in> set (extract_feedback_themes ns top_n)"
  then have "word t \<in> set (surviving_words ns)"
    by (simp add: themes_entries)
  then have "word t \<notin> set STOP_WORDS \<and> 3 < length (word t)"
    by (rule surviving_words_filtered)
  then show "word t \<notin> set STOP_WORDS" and "3 < length (word t)"
    by simp_all
  from t show "count t = length (filter (\<lambda>v. lower v = word t) (all_tokens ns))"
    by (rule themes_count_variants)
next
  show "distinct (map word (extract_feedback_themes ns top_n))"
    by (rule themes_distinct)
  show "length (extract_feedback_themes ns top_n) \<le> nat top_n"
    by (rule themes_length)
  show "extract_feedback_themes [] top_n = []"
    by (simp add: themes_empty surviving_words_def)
next
  assume "surviving_words ns = []"
  then show "extract_feedback_themes ns top_n = []"
    by (rule themes_empty)
qed

theorem themes_filtered_merged_bounded_witness:
  "ascii_notes [Some ''Python PYTHON python, the cat jumps_over 3dogs''] \<and>
   extract_feedback_themes [Some ''Python PYTHON python, the cat jumps_over 3dogs''] 10
     = [\<lparr>word = ''python'', count = 3\<rparr>] \<and>
   length (filter (\<lambda>v. lower v = ''python'')
     (all_tokens [Some ''Python PYTHON python, the cat jumps_over 3dogs''])) = 3 \<and>
   surviving_words [Some ''the cat'', None, Some []] = [] \<and>
   extract_feedback_themes [Some ''the cat'', None, Some []] 10 = []"
proof -
  let ?ns = "[Some ''Python PYTHON python, the cat jumps_over 3dogs'']"
  have a: "ascii_notes ?ns"
    by code_simp
  have v: "extract_feedback_themes ?ns 10 = [\<lparr>word = ''python'', count = 3\<rparr>]"
    by code_simp
  have e: "surviving_words [Some ''the cat'', None, Some []] = []"
    by code_simp
  from themes_filtered_merged_bounded[of ?ns 10] a
  have "\<forall>t \<in> set (extract_feedback_themes ?ns 10).
      count t = length (filter (\<lambda>v. lower v = word t) (all_tokens ?ns))"
    by blast
  then have "length (filter (\<lambda>v. lower v = ''python'') (all_tokens ?ns)) = 3"
    unfolding v by simp
  moreover from themes_filtered_merged_bounded[of "[Some ''the cat'', None, Some []]" 10] e
  have "extract_feedback_themes [Some ''the cat'', None, Some []] 10 = []"
    by blast
  ultimately show ?thesis
    using a v e by simp
qed

text \<open>
  Claim C5. The output of theme extraction is ordered by descending count, and words
  of equal count stand in the order in which they were first seen when the notes are
  scanned in input order: of two entries, the earlier one has the strictly greater
  count, or the same count and the earlier first occurrence.
\<close>

theorem themes_order:
  "sorted_wrt (\<lambda>a b. count a > count b \<or>
        (count a = count b \<and>
         first_seen (surviving_words ns) (word a) < first_seen (surviving_words ns) (word b)))
     (extract_feedback_themes ns top_n)"
proof -
  let ?ws = "surviving_words ns"
  have "sorted_wrt (\<lambda>a b. first_seen ?ws a < first_seen ?ws b) (map fst (count_notes [] ns))"
    unfolding count_notes_stream by (rule keys_counter_update_order)
  then have "sorted_wrt (\<lambda>a b. snd a > snd b \<or> (snd a = snd b \<and> first_seen ?ws (fst a) < first_seen ?ws (fst b)))
           (most_common top_n (count_notes [] ns))"
    by (rule most_common_order)
  then show ?thesis
    by (simp add: extract_feedback_themes_def sorted_wrt_map case_prod_unfold)
qed

theorem themes_order_witness:
  "extract_feedback_themes [Some ''zebra apple apple zebra mango'', Some ''Mango? lovely!''] 3
     = [\<lparr>word = ''zebra'', count = 2\<rparr>, \<lparr>word = ''apple'', count = 2\<rparr>, \<lparr>word = ''mango'', count = 2\<rparr>] \<and>
   first_seen (surviving_words [Some ''zebra apple apple zebra mango'', Some ''Mango? lovely!'']) ''zebra''
     < first_seen (surviving_words [Some ''zebra apple apple zebra mango'', Some ''Mango? lovely!'']) ''apple''"
proof -
  let ?ns = "[Some ''zebra apple apple zebra mango'', Some ''Mango? lovely!'']"
  have v: "extract_feedback_themes ?ns 3
     = [\<lparr>word = ''zebra'', count = 2\<rparr>, \<lparr>word = ''apple'', count = 2\<rparr>, \<lparr>word = ''mango'', count = 2\<rparr>]"
    by code_simp
  from themes_order[of ?ns 3] show ?thesis
    unfolding v by simp
qed

subsection \<open>Insights\<close>

text \<open>
  Claim C6. In every insights report the satisfaction rate is
  \<^verbatim>\<open>positive_feedback / total_feedback * 100\<close> rounded to two decimals, and 0 when
  there is no feedback; the feedback rate is
  \<^verbatim>\<open>total_feedback / total_ai_messages * 100\<close> rounded to two decimals, and 0 when
  there is no AI message. The counts are those of the store. (Two positive of three
  feedback records on three AI messages give 66.67 and 100.0: the witness.)
\<close>

theorem insights_rates:
  assumes "fst (InsightsView_get gen s q) = Inr \<lparr>status = st, content = InsightsData r\<rparr>"
  shows "satisfaction_rate (feedback_stats r)
           = rate_formula (positive_feedback (feedback_stats r)) (total_feedback (feedback_stats r))
       \<and> feedback_rate (feedback_stats r)
           = rate_formula (total_feedback (feedback_stats r)) (total_ai_messages (usage r))
       \<and> total_feedback (feedback_stats r) = length (feedbacks s)
       \<and> positive_feedback (feedback_stats r) = length (filter fb_rating (feedbacks s))
       \<and> total_ai_messages (usage r) = length (filter (\<lambda>m. msg_role m = ROLE_AI) (messages s))
       \<and> rate_formula (positive_feedback (feedback_stats r)) 0 = 0
       \<and> rate_formula (total_feedback (feedback_stats r)) 0 = 0"
proof -
  from insights_response[OF assms] obtain r0 p t
    where g: "gather_statistics s = Inr (r0, p)" and r: "r = r0\<lparr>summary := t\<rparr>"
    by blast
  from gather_statistics_fields[of s] g
  have "usage r0 = \<lparr>total_conversations = length (conversations s),
               total_messages = length (messages s),
               total_user_messages = length (filter (\<lambda>m. msg_role m = ROLE_USER) (messages s)),
               total_ai_messages = length (filter (\<lambda>m. msg_role m = ROLE_AI) (messages s))\<rparr>"
    and "total_feedback (feedback_stats r0) = length (feedbacks s)"
    and "positive_feedback (feedback_stats r0) = length (filter fb_rating (feedbacks s))"
    and "satisfaction_rate (feedback_stats r0) =
       rate_formula (length (filter fb_rating (feedbacks s))) (length (feedbacks s))"
    and "feedback_rate (feedback_stats r0) =
       rate_formula (length (feedbacks s)) (length (filter (\<lambda>m. msg_role m = ROLE_AI) (messages s)))"
    by auto
  then show ?thesis
    by (simp add: r rate_formula_def)
qed

theorem insights_rates_witness:
  "fst (InsightsView_get (generate_reply no_key) rated_store (Some ''false''))
     = Inr \<lparr>status = 200, content = InsightsData rated_report\<rparr> \<and>
   satisfaction_rate (feedback_stats rated_report) = rate_formula 2 3 \<and>
   rate_formula 2 3 = fl (6667 / 100) \<and>
   feedback_rate (feedback_stats rated_report) = rate_formula 3 3 \<and>
   rate_formula 3 3 = 100"
proof -
  have e: "fst (InsightsView_get (generate_reply no_key) rated_store (Some ''false''))
     = Inr \<lparr>status = 200, content = InsightsData rated_report\<rparr>"
    by code_simp
  have c: "positive_feedback (feedback_stats rated_report) = 2"
    "total_feedback (feedback_stats rated_report) = 3"
    "total_ai_messages (usage rated_report) = 3"
    by (simp_all add: rated_report_def)
  have v: "rate_formula 2 3 = fl (6667 / 100)" "rate_formula 3 3 = 100"
    by code_simp+
  from insights_rates[OF e] e v show ?thesis
    unfolding c by simp
qed

text \<open>
  Claim C7. On a store without conversations, messages and feedback the insights view
  raises nothing and answers with a report whose usage and feedback counts are all 0,
  whose theme list is empty and whose average quality score is absent. The generator
  is any one that fails with classified errors only, as \<open>generate_reply\<close> does.
\<close>

theorem insights_on_empty_store:
  assumes "classified gen"
  shows "\<exists>r. fst (InsightsView_get gen empty_store q)
                 = Inr \<lparr>status = 200, content = InsightsData r\<rparr>
           \<and> usage r = \<lparr>total_conversations = 0, total_messages = 0,
                          total_user_messages = 0, total_ai_messages = 0\<rparr>
           \<and> total_feedback (feedback_stats r) = 0
           \<and> positive_feedback (feedback_stats r) = 0
           \<and> negative_feedback (feedback_stats r) = 0
           \<and> themes r = []
           \<and> average (quality_scores r) = None"
proof -
  from gather_statistics_fields[of empty_store]
  obtain r0 p where g: "gather_statistics empty_store = Inr (r0, p)"
    and f: "usage r0 = \<lparr>total_conversations = 0, total_messages = 0,
                          total_user_messages = 0, total_ai_messages = 0\<rparr>"
      "total_feedback (feedback_stats r0) = 0" "positive_feedback (feedback_stats r0) = 0"
      "negative_feedback (feedback_stats r0) = 0"
      "themes r0 = extract_feedback_themes (feedback_notes empty_store) 10"
    and avg: "\<exists>convs. conversations_with_scores empty_store (conversations empty_store) = Inr convs \<and>
        avg_quality_score (defined_scores convs) = Inr (average (quality_scores r0))"
    by (auto simp: empty_store_def)
  have th: "themes r0 = []"
    by (simp add: f(5) feedback_notes_def empty_store_def themes_empty surviving_words_def)
  from avg have av: "average (quality_scores r0) = None"
    by (simp add: empty_store_def defined_scores_def avg_quality_score_def)
  have "\<exists>t. fst (InsightsView_get gen empty_store q)
      = Inr \<lparr>status = 200, content = InsightsData (r0\<lparr>summary := t\<rparr>)\<rparr>"
  proof (cases "include_summary_param q")
    case False
    with g have "fst (InsightsView_get gen empty_store q)
        = Inr \<lparr>status = 200, content = InsightsData (r0\<lparr>summary := summary r0\<rparr>)\<rparr>"
      by (simp add: InsightsView_get_off)
    then show ?thesis ..
  next
    case True
    show ?thesis
    proof (cases "gen [] p")
      case (Inr reply)
      with g True have "fst (InsightsView_get gen empty_store q)
          = Inr \<lparr>status = 200, content = InsightsData (r0\<lparr>summary := Some reply\<rparr>)\<rparr>"
        by (simp add: InsightsView_get_reply)
      then show ?thesis ..
    next
      case (Inl e)
      with assms obtain m where "gen [] p = Inl (GeminiServiceError m)"
        unfolding classified_def by blast
      with g True have "fst (InsightsView_get gen empty_store q)
          = Inr \<lparr>status = 200, content = InsightsData (r0\<lparr>summary := None\<rparr>)\<rparr>"
        by (simp add: InsightsView_get_failure)
      then show ?thesis ..
    qed
  qed
  then obtain t where "fst (InsightsView_get gen empty_store q)
      = Inr \<lparr>status = 200, content = InsightsData (r0\<lparr>summary := t\<rparr>)\<rparr>" ..
  with f th av show ?thesis
    by (intro exI[of _ "r0\<lparr>summary := t\<rparr>"]) simp
qed

theorem insights_on_empty_store_witness:
  "classified (generate_reply no_key) \<and>
   (\<exists>r. fst (InsightsView_get (generate_reply no_key) empty_store None)
           = Inr \<lparr>status = 200, content = InsightsData r\<rparr>
       \<and> themes r = [] \<and> average (quality_scores r) = None)"
proof -
  have c: "classified (generate_reply no_key)"
    by (rule generate_reply_classified)
  from insights_on_empty_store[OF c, of None] c show ?thesis
    by blast
qed

text \<open>
  Claim C8. The insights view calls the generator exactly when \<open>include_summary\<close> is
  true, and then once, with an empty history; when it is false the generator is not
  called and the response does not depend on it. When it is called, the response
  depends on the generator through the outcome of that one call only: a reply
  becomes the summary of the report, whose other fields are those of the report
  built without a summary; an error other than the classified one reaches the
  caller. When the call fails with the classified error, the view still answers:
  the summary is absent and the response is the one the view gives without a
  summary, so the failure does not reach the caller. Any other successful build of
  the report on the same store differs from it in the summary only.
\<close>

theorem summary_is_best_effort:
  "(snd (InsightsView_get gen s q) \<noteq> [] \<longleftrightarrow> include_summary_param q)
   \<and> length (snd (InsightsView_get gen s q)) = (if include_summary_param q then 1 else 0)
   \<and> (\<not> include_summary_param q \<longrightarrow>
        InsightsView_get gen s q = InsightsView_get gen' s q)
   \<and> (\<forall>c \<in> set (snd (InsightsView_get gen s q)).
        fst c = []
        \<and> (gen' (fst c) (snd c) = gen (fst c) (snd c) \<longrightarrow>
             InsightsView_get gen' s q = InsightsView_get gen s q)
        \<and> (\<forall>reply. gen (fst c) (snd c) = Inr reply \<longrightarrow>
             (\<exists>r. fst (InsightsView_get gen s q)
                     = Inr \<lparr>status = 200, content = InsightsData r\<rparr>
                \<and> summary r = Some reply
                \<and> fst (InsightsView_get gen' s (Some ''false''))
                     = Inr \<lparr>status = 200, content = InsightsData (r\<lparr>summary := None\<rparr>)\<rparr>))
        \<and> (\<forall>e. gen (fst c) (snd c) = Inl e \<and> (\<forall>m. e \<noteq> GeminiServiceError m) \<longrightarrow>
             fst (InsightsView_get gen s q) = Inl e))
   \<and> (include_summary_param q \<and>
        (\<forall>c \<in> set (snd (InsightsView_get gen s q)).
            \<exists>m. gen (fst c) (snd c) = Inl (GeminiServiceError m)) \<longrightarrow>
        (\<exists>r. fst (InsightsView_get gen s q) = Inr \<lparr>status = 200, content = InsightsData r\<rparr>
            \<and> summary r = None
            \<and> fst (InsightsView_get gen s q) = fst (InsightsView_get gen' s (Some ''false''))
            \<and> (\<forall>st' r'. fst (InsightsView_get gen' s q')
                            = Inr \<lparr>status = st', content = InsightsData r'\<rparr>
                  \<longrightarrow> r'\<lparr>summary := None\<rparr> = r)))"
proof -
  from gather_statistics_fields[of s]
  obtain r0 p where g: "gather_statistics s = Inr (r0, p)" and none: "summary r0 = None"
    by blast
  note calls = InsightsView_get_calls[OF g, of gen q]
  have same: "r0\<lparr>summary := None\<rparr> = r0"
    using none by simp
  have off: "fst (InsightsView_get gen' s (Some ''false''))
      = Inr \<lparr>status = 200, content = InsightsData r0\<rparr>"
    using g by (simp add: InsightsView_get_off include_summary_false)
  have silent: "InsightsView_get gen s q = InsightsView_get gen' s q"
    if "\<not> include_summary_param q"
    using g that by (simp add: InsightsView_get_off)
  have one_call: "InsightsView_get gen' s q = InsightsView_get gen s q"
    if "gen' [] p = gen [] p"
    using g that by (simp add: InsightsView_get_def)
  have answered: "\<exists>r. fst (InsightsView_get gen s q)
                     = Inr \<lparr>status = 200, content = InsightsData r\<rparr>
                \<and> summary r = Some reply
                \<and> fst (InsightsView_get gen' s (Some ''false''))
                     = Inr \<lparr>status = 200, content = InsightsData (r\<lparr>summary := None\<rparr>)\<rparr>"
    if inc: "include_summary_param q" and reply: "gen [] p = Inr reply" for reply
  proof -
    from g inc reply have "fst (InsightsView_get gen s q)
        = Inr \<lparr>status = 200, content = InsightsData (r0\<lparr>summary := Some reply\<rparr>)\<rparr>"
      by (simp add: InsightsView_get_reply)
    moreover have "(r0\<lparr>summary := Some reply\<rparr>)\<lparr>summary := None\<rparr> = r0"
      using none by simp
    ultimately show ?thesis
      using off by (intro exI[of _ "r0\<lparr>summary := Some reply\<rparr>"]) simp
  qed
  have raised: "fst (InsightsView_get gen s q) = Inl e"
    if "include_summary_param q" "gen [] p = Inl e" "\<forall>m. e \<noteq> GeminiServiceError m" for e
    using g that by (cases e) (simp_all add: InsightsView_get_def)
  have each: "\<forall>c \<in> set (snd (InsightsView_get gen s q)).
        fst c = []
        \<and> (gen' (fst c) (snd c) = gen (fst c) (snd c) \<longrightarrow>
             InsightsView_get gen' s q = InsightsView_get gen s q)
        \<and> (\<forall>reply. gen (fst c) (snd c) = Inr reply \<longrightarrow>
             (\<exists>r. fst (InsightsView_get gen s q)
                     = Inr \<lparr>status = 200, content = InsightsData r\<rparr>
                \<and> summary r = Some reply
                \<and> fst (InsightsView_get gen' s (Some ''false''))
                     = Inr \<lparr>status = 200, content = InsightsData (r\<lparr>summary := None\<rparr>)\<rparr>))
        \<and> (\<forall>e. gen (fst c) (snd c) = Inl e \<and> (\<forall>m. e \<noteq> GeminiServiceError m) \<longrightarrow>
             fst (InsightsView_get gen s q) = Inl e)"
  proof (cases "include_summary_param q")
    case False
    then show ?thesis
      unfolding calls by simp
  next
    case True
    with one_call answered[OF True] raised[OF True] show ?thesis
      unfolding calls by simp
  qed
  have failed: "\<exists>r. fst (InsightsView_get gen s q) = Inr \<lparr>status = 200, content = InsightsData r\<rparr>
            \<and> summary r = None
            \<and> fst (InsightsView_get gen s q) = fst (InsightsView_get gen' s (Some ''false''))
            \<and> (\<forall>st' r'. fst (InsightsView_get gen' s q')
                            = Inr \<lparr>status = st', content = InsightsData r'\<rparr>
                  \<longrightarrow> r'\<lparr>summary := None\<rparr> = r)"
    if inc: "include_summary_param q"
      and fail: "\<forall>c \<in> set (snd (InsightsView_get gen s q)).
            \<exists>m. gen (fst c) (snd c) = Inl (GeminiServiceError m)"
  proof -
    from fail inc obtain m where "gen [] p = Inl (GeminiServiceError m)"
      unfolding calls by auto
    with g inc have a: "fst (InsightsView_get gen s q)
        = Inr \<lparr>status = 200, content = InsightsData r0\<rparr>"
      by (simp add: InsightsView_get_failure same)
    have c: "r'\<lparr>summary := None\<rparr> = r0"
      if "fst (InsightsView_get gen' s q') = Inr \<lparr>status = st', content = InsightsData r'\<rparr>"
      for st' r'
    proof -
      from insights_response[OF that] g obtain t where "r' = r0\<lparr>summary := t\<rparr>"
        by auto
      then show ?thesis
        by (simp add: same)
    qed
    from a off c none show ?thesis
      by (intro exI[of _ r0]) simp
  qed
  have count: "(snd (InsightsView_get gen s q) \<noteq> [] \<longleftrightarrow> include_summary_param q)
      \<and> length (snd (InsightsView_get gen s q)) = (if include_summary_param q then 1 else 0)"
    unfolding calls by simp
  from count silent each failed show ?thesis
    by blast
qed

theorem summary_is_best_effort_witness:
  "include_summary_param None \<and>
   snd (InsightsView_get (generate_reply with_key) rated_store None) = [([], rated_prompt)] \<and>
   generate_reply with_key [] rated_prompt = Inr ''Two of three replies were liked.'' \<and>
   fst (InsightsView_get (generate_reply with_key) rated_store None)
     = Inr \<lparr>status = 200, content = InsightsData
            (rated_report\<lparr>summary := Some ''Two of three replies were liked.''\<rparr>)\<rparr> \<and>
   snd (InsightsView_get (generate_reply no_key) rated_store None) = [([], rated_prompt)] \<and>
   fst (InsightsView_get (generate_reply no_key) rated_store None)
     = Inr \<lparr>status = 200, content = InsightsData rated_report\<rparr> \<and>
   \<not> include_summary_param (Some ''FALSE'') \<and>
   InsightsView_get (generate_reply with_key) rated_store (Some ''FALSE'')
     = (Inr \<lparr>status = 200, content = InsightsData rated_report\<rparr>, [])"
proof -
  have on: "include_summary_param None" and no: "\<not> include_summary_param (Some ''FALSE'')"
    by code_simp+
  have log: "snd (InsightsView_get (generate_reply with_key) rated_store None)
      = [([], rated_prompt)]"
    by code_simp
  have log': "snd (InsightsView_get (generate_reply no_key) rated_store None)
      = [([], rated_prompt)]"
    by code_simp
  have reply: "generate_reply with_key [] rated_prompt = Inr ''Two of three replies were liked.''"
    by code_simp
  have fails: "generate_reply no_key [] rated_prompt
      = Inl (GeminiServiceError ''Gemini API key is missing; set GEMINI_API_KEY in .env'')"
    by code_simp
  have plain: "fst (InsightsView_get (generate_reply no_key) rated_store (Some ''false''))
      = Inr \<lparr>status = 200, content = InsightsData rated_report\<rparr>"
    by code_simp
  have quiet: "InsightsView_get (generate_reply no_key) rated_store (Some ''FALSE'')
      = (Inr \<lparr>status = 200, content = InsightsData rated_report\<rparr>, [])"
    by code_simp
  have mem: "([], rated_prompt)
      \<in> set (snd (InsightsView_get (generate_reply with_key) rated_store None))"
    unfolding log by simp
  note call = summary_is_best_effort[of "generate_reply with_key" rated_store None
      "generate_reply no_key", THEN conjunct2, THEN conjunct2, THEN conjunct2,
      THEN conjunct1, THEN bspec, OF mem, unfolded fst_conv snd_conv]
  from call[THEN conjunct2, THEN conjunct2, THEN conjunct1, THEN spec, THEN mp, OF reply]
  obtain r where r: "fst (InsightsView_get (generate_reply with_key) rated_store None)
        = Inr \<lparr>status = 200, content = InsightsData r\<rparr>"
      "summary r = Some ''Two of three replies were liked.''"
    and "fst (InsightsView_get (generate_reply no_key) rated_store (Some ''false''))
        = Inr \<lparr>status = 200, content = InsightsData (r\<lparr>summary := None\<rparr>)\<rparr>"
    by blast
  then have "Inr \<lparr>status = 200, content = InsightsData (r\<lparr>summary := None\<rparr>)\<rparr>
      = (Inr \<lparr>status = 200, content = InsightsData rated_report\<rparr> :: py_error + response)"
    by (simp only: plain)
  then have rest: "r\<lparr>summary := None\<rparr> = rated_report"
    by simp
  from r(2) have "r = (r\<lparr>summary := None\<rparr>)\<lparr>summary := Some ''Two of three replies were liked.''\<rparr>"
    by (cases r) simp
  then have "r = rated_report\<lparr>summary := Some ''Two of three replies were liked.''\<rparr>"
    by (simp only: rest)
  with r(1) have a: "fst (InsightsView_get (generate_reply with_key) rated_store None)
     = Inr \<lparr>status = 200, content = InsightsData
            (rated_report\<lparr>summary := Some ''Two of three replies were liked.''\<rparr>)\<rparr>"
    by simp
  have "include_summary_param None \<and>
      (\<forall>c \<in> set (snd (InsightsView_get (generate_reply no_key) rated_store None)).
         \<exists>m. generate_reply no_key (fst c) (snd c) = Inl (GeminiServiceError m))"
    unfolding log' using on fails by simp
  from summary_is_best_effort[of "generate_reply no_key" rated_store None
      "generate_reply no_key", THEN conjunct2, THEN conjunct2, THEN conjunct2,
      THEN conjunct2, THEN mp, OF this]
  have "fst (InsightsView_get (generate_reply no_key) rated_store None)
      = fst (InsightsView_get (generate_reply no_key) rated_store (Some ''false''))"
    by blast
  then have b: "fst (InsightsView_get (generate_reply no_key) rated_store None)
     = Inr \<lparr>status = 200, content = InsightsData rated_report\<rparr>"
    by (simp only: plain)
  from summary_is_best_effort[of "generate_reply with_key" rated_store "Some ''FALSE''"
      "generate_reply no_key", THEN conjunct2, THEN conjunct2, THEN conjunct1, THEN mp, OF no]
  have c: "InsightsView_get (generate_reply with_key) rated_store (Some ''FALSE'')
     = (Inr \<lparr>status = 200, content = InsightsData rated_report\<rparr>, [])"
    by (simp only: quiet)
  from on no log log' reply a b c show ?thesis
    by (intro conjI)
qed

subsection \<open>Feedback submission\<close>

text \<open>
  Claim C9. In every store that the public operations can reach, each feedback record
  is attached to a stored message of role \<open>ai\<close>, and no message has two feedback
  records. Feedback on a message of another role is refused with status 400 and the
  store stays as it is. When the message already has feedback, a valid submission
  answers 200 and rewrites that record in place: the record keeps its key and its
  message, takes the new rating (and the new note, if one is sent), and the table
  holds the same keys for the same messages as before. Submitting the same request a
  second time leaves the store as the first submission left it.
\<close>

theorem feedback_is_an_upsert_on_ai_messages:
  assumes "reachable s"
  shows "(\<forall>f \<in> set (feedbacks s).
            \<exists>m. get_message s (fb_message f) = Some m \<and> msg_role m = ROLE_AI)
       \<and> distinct (map fb_message (feedbacks s))
       \<and> (\<forall>m. get_message s mid = Some m \<and> msg_role m \<noteq> ROLE_AI \<longrightarrow>
            MessageFeedbackView_post s mid req =
              (Inr \<lparr>status = 400,
                    content = Detail ''Feedback can only be provided for AI messages.''\<rparr>, s))
       \<and> (\<forall>f rating nt.
            f \<in> set (feedbacks s) \<and> fb_message f = mid \<and>
            CreateFeedbackSerializer req = Some (rating, nt) \<longrightarrow>
            (\<exists>f'. MessageFeedbackView_post s mid req =
                     (Inr \<lparr>status = 200, content = FeedbackData f'\<rparr>, save_feedback f' s)
                 \<and> fb_id f' = fb_id f \<and> fb_message f' = mid \<and> fb_rating f' = rating
                 \<and> fb_note f' = (case nt of None \<Rightarrow> fb_note f | Some t \<Rightarrow> Some t)
                 \<and> f' \<in> set (feedbacks (save_feedback f' s))
                 \<and> map fb_id (feedbacks (save_feedback f' s)) = map fb_id (feedbacks s)
                 \<and> map fb_message (feedbacks (save_feedback f' s)) = map fb_message (feedbacks s)
                 \<and> messages (save_feedback f' s) = messages s))
       \<and> snd (MessageFeedbackView_post (snd (MessageFeedbackView_post s mid req)) mid req)
           = snd (MessageFeedbackView_post s mid req)"
proof -
  from assms have ok: "store_ok s"
    by (rule reachable_store_ok)
  then have d: "distinct (map fb_id (feedbacks s))"
    by (simp add: store_ok_def)
  have attached: "\<forall>f \<in> set (feedbacks s).
      \<exists>m. get_message s (fb_message f) = Some m \<and> msg_role m = ROLE_AI"
    using ok by (blast intro: feedback_message_exists)
  have one: "distinct (map fb_message (feedbacks s))"
    using ok by (simp add: store_ok_def)
  have refuse: "\<forall>m. get_message s mid = Some m \<and> msg_role m \<noteq> ROLE_AI \<longrightarrow>
      MessageFeedbackView_post s mid req =
        (Inr \<lparr>status = 400,
              content = Detail ''Feedback can only be provided for AI messages.''\<rparr>, s)"
    by (blast intro: feedback_post_not_ai)
  have update: "\<exists>f'. MessageFeedbackView_post s mid req =
               (Inr \<lparr>status = 200, content = FeedbackData f'\<rparr>, save_feedback f' s)
           \<and> fb_id f' = fb_id f \<and> fb_message f' = mid \<and> fb_rating f' = rating
           \<and> fb_note f' = (case nt of None \<Rightarrow> fb_note f | Some t \<Rightarrow> Some t)
           \<and> f' \<in> set (feedbacks (save_feedback f' s))
           \<and> map fb_id (feedbacks (save_feedback f' s)) = map fb_id (feedbacks s)
           \<and> map fb_message (feedbacks (save_feedback f' s)) = map fb_message (feedbacks s)
           \<and> messages (save_feedback f' s) = messages s"
    if f: "f \<in> set (feedbacks s)" "fb_message f = mid"
      and v: "CreateFeedbackSerializer req = Some (rating, nt)"
    for f rating nt
  proof -
    let ?f' = "updated_feedback f rating nt"
    from feedback_post_existing[OF ok f(1) v] f(2)
    have "MessageFeedbackView_post s mid req =
        (Inr \<lparr>status = 200, content = FeedbackData ?f'\<rparr>, save_feedback ?f' s)"
      by simp
    moreover have "?f' \<in> set (feedbacks (save_feedback ?f' s))"
      using f(1) by (rule save_feedback_in) (simp add: updated_feedback_keys)
    moreover have "fb_id ?f' = fb_id f" "fb_message ?f' = fb_message f"
      by (simp_all add: updated_feedback_keys)
    from save_feedback_keys[OF f(1) this d]
    have "map fb_id (feedbacks (save_feedback ?f' s)) = map fb_id (feedbacks s)"
      "map fb_message (feedbacks (save_feedback ?f' s)) = map fb_message (feedbacks s)"
      "messages (save_feedback ?f' s) = messages s"
      by simp_all
    ultimately show ?thesis
      using f(2) by (intro exI[of _ ?f']) (simp add: updated_feedback_keys)
  qed
  have twice: "snd (MessageFeedbackView_post (snd (MessageFeedbackView_post s mid req)) mid req)
      = snd (MessageFeedbackView_post s mid req)"
    using ok by (rule feedback_post_twice)
  from attached one refuse update twice show ?thesis
    by blast
qed

theorem feedback_is_an_upsert_on_ai_messages_witness:
  "reachable rated_store \<and>
   distinct (map fb_message (feedbacks rated_store)) \<and>
   MessageFeedbackView_post rated_store 1 thumbs_down =
     (Inr \<lparr>status = 200,
           content = FeedbackData \<lparr>fb_id = 1, fb_message = 1, fb_rating = False,
                                   fb_note = Some ''Clear and clear''\<rparr>\<rparr>,
      save_feedback \<lparr>fb_id = 1, fb_message = 1, fb_rating = False,
                     fb_note = Some ''Clear and clear''\<rparr> rated_store)"
proof -
  have r: "reachable rated_store"
    by (rule reachable_rated)
  have v: "MessageFeedbackView_post rated_store 1 thumbs_down =
     (Inr \<lparr>status = 200,
           content = FeedbackData \<lparr>fb_id = 1, fb_message = 1, fb_rating = False,
                                   fb_note = Some ''Clear and clear''\<rparr>\<rparr>,
      save_feedback \<lparr>fb_id = 1, fb_message = 1, fb_rating = False,
                     fb_note = Some ''Clear and clear''\<rparr> rated_store)"
    by code_simp
  from feedback_is_an_upsert_on_ai_messages[OF r, of 1 thumbs_down] r v show ?thesis
    by simp
qed

subsection \<open>Message posting\<close>

text \<open>
  Claim C10. When a message is posted successfully (status 201) to a conversation
  whose title is unset, and the conversation then has exactly one user message, the
  title of the conversation becomes the first 50 characters of the posted text,
  stripped, followed by \<^verbatim>\<open>...\<close> when the text has more than 50 characters. The
  posted text is the text of the stored user message, that is the text of the request
  as the serializer returns it. A conversation that has a title keeps it, whatever
  the outcome of the post.
\<close>

theorem first_message_titles_the_conversation:
  assumes "get_conversation s pk = Some conv"
  shows "(\<forall>user_msg ai_msg s'.
            MessageListCreateView_post gen s pk text_field =
              (Inr \<lparr>status = 201, content = MessagePair user_msg ai_msg\<rparr>, s')
            \<and> untitled conv \<and> user_message_count s' pk = 1 \<longrightarrow>
            CreateMessageSerializer text_field = Some (msg_text user_msg)
          \<and> get_conversation s' pk =
              Some (conv\<lparr>conv_title :=
                Some (strip (take 50 (msg_text user_msg))
                      @ (if 50 < length (msg_text user_msg) then ''...'' else []))\<rparr>))
       \<and> (\<not> untitled conv \<longrightarrow>
            get_conversation (snd (MessageListCreateView_post gen s pk text_field)) pk = Some conv)"
proof (intro conjI allI impI)
  fix user_msg ai_msg s'
  assume a: "MessageListCreateView_post gen s pk text_field =
              (Inr \<lparr>status = 201, content = MessagePair user_msg ai_msg\<rparr>, s')
            \<and> untitled conv \<and> user_message_count s' pk = 1"
  then have post: "MessageListCreateView_post gen s pk text_field =
      (Inr \<lparr>status = 201, content = MessagePair user_msg ai_msg\<rparr>, s')"
    and un: "untitled conv" and one: "user_message_count s' pk = 1"
    by simp_all
  from message_post_auto_title(2)[OF post assms un one]
  show "CreateMessageSerializer text_field = Some (msg_text user_msg)" .
  from message_post_auto_title(1)[OF post assms un one]
  show "get_conversation s' pk =
      Some (conv\<lparr>conv_title :=
        Some (strip (take 50 (msg_text user_msg))
              @ (if 50 < length (msg_text user_msg) then ''...'' else []))\<rparr>)"
    by (simp add: auto_title_def)
next
  assume "\<not> untitled conv"
  with assms show "get_conversation (snd (MessageListCreateView_post gen s pk text_field)) pk = Some conv"
    by (rule message_post_titled)
qed

theorem first_message_titles_the_conversation_witness:
  "get_conversation fresh_store 1 = Some chat \<and> untitled chat \<and>
   fst (MessageListCreateView_post (\<lambda>h p. Inr ''Hello!'') fresh_store 1 (Value long_question))
     = Inr \<lparr>status = 201, content = MessagePair
         \<lparr>msg_id = 1, msg_conversation = 1, msg_role = ROLE_USER,
          msg_text = ''Tell me about the history of the Roman empire and its fall, please'',
          msg_sequence = 1\<rparr>
         \<lparr>msg_id = 2, msg_conversation = 1, msg_role = ROLE_AI, msg_text = ''Hello!'',
          msg_sequence = 2\<rparr>\<rparr> \<and>
   get_conversation
     (snd (MessageListCreateView_post (\<lambda>h p. Inr ''Hello!'') fresh_store 1 (Value long_question))) 1
     = Some (chat\<lparr>conv_title := Some ''Tell me about the history of the Roman empire and...''\<rparr>)"
proof -
  let ?post = "MessageListCreateView_post (\<lambda>h p. Inr ''Hello!'') fresh_store 1 (Value long_question)"
  let ?um = "\<lparr>msg_id = 1, msg_conversation = 1, msg_role = ROLE_USER,
          msg_text = ''Tell me about the history of the Roman empire and its fall, please'',
          msg_sequence = 1\<rparr>"
  let ?am = "\<lparr>msg_id = 2, msg_conversation = 1, msg_role = ROLE_AI, msg_text = ''Hello!'',
          msg_sequence = 2\<rparr>"
  have c: "get_conversation fresh_store 1 = Some chat"
    by code_simp
  have u: "untitled chat"
    by code_simp
  have p: "fst ?post = Inr \<lparr>status = 201, content = MessagePair ?um ?am\<rparr>"
    by code_simp
  then have p': "?post = (Inr \<lparr>status = 201, content = MessagePair ?um ?am\<rparr>, snd ?post)"
    by (metis prod.collapse)
  have n: "user_message_count (snd ?post) 1 = 1"
    by code_simp
  have t: "strip (take 50 (msg_text ?um)) @ (if 50 < length (msg_text ?um) then ''...'' else [])
      = ''Tell me about the history of the Roman empire and...''"
    by code_simp
  from first_message_titles_the_conversation[OF c, of "\<lambda>h p. Inr ''Hello!''" "Value long_question"]
    p' u n
  have "get_conversation (snd ?post) 1 =
      Some (chat\<lparr>conv_title :=
        Some (strip (take 50 (msg_text ?um)) @ (if 50 < length (msg_text ?um) then ''...'' else []))\<rparr>)"
    by blast
  with c u p show ?thesis
    unfolding t by simp
qed

end
